theory Spec2Isabelle
  imports Main
begin

section \<open>Data model of the parking puzzle\<close>

text \<open>
  The board is a list of rows. A cell holds the integer 0 (empty), the string "h" (part of
  a horizontal car) or the string "v" (part of a vertical car), as the comment above
  \<^verbatim>\<open>ESTADO_INICIAL\<close> fixes.
\<close>

datatype cell = Empty | H | V

type_synonym grid = "cell list list"

definition ESTADO_INICIAL :: grid where
  "ESTADO_INICIAL =
    [[Empty, Empty, Empty, Empty, Empty],
     [Empty, Empty, V, Empty, Empty],
     [Empty, Empty, V, Empty, Empty],
     [Empty, Empty, Empty, Empty, Empty],
     [Empty, Empty, Empty, H, H]]"

definition ESTADO_OBJETIVO :: grid where
  "ESTADO_OBJETIVO =
    [[Empty, Empty, Empty, Empty, Empty],
     [Empty, Empty, Empty, Empty, Empty],
     [Empty, Empty, Empty, H, H],
     [Empty, Empty, Empty, Empty, Empty],
     [Empty, Empty, Empty, Empty, Empty]]"

datatype orientation = Horizontal | Vertical

datatype direction = Up | Down | Left | Right

text \<open>Class \<^verbatim>\<open>Car\<close>; the attribute \<^verbatim>\<open>length\<close> is the field \<open>car_length\<close>.\<close>

record car =
  start_pos :: "int \<times> int"
  end_pos :: "int \<times> int"
  orientation :: orientation
  car_length :: int

definition calculate_length :: "int \<times> int \<Rightarrow> int \<times> int \<Rightarrow> orientation \<Rightarrow> int" where
  "calculate_length s e ori =
     (if ori = Horizontal then snd e - snd s + 1 else fst e - fst s + 1)"

definition Car :: "int \<times> int \<Rightarrow> int \<times> int \<Rightarrow> orientation \<Rightarrow> car" where
  "Car s e ori =
     \<lparr>start_pos = s, end_pos = e, orientation = ori, car_length = calculate_length s e ori\<rparr>"

text \<open>Class \<^verbatim>\<open>Game\<close>: the attributes \<^verbatim>\<open>board_dimension\<close>, \<^verbatim>\<open>board\<close>, \<^verbatim>\<open>cars\<close>.\<close>

record game =
  board_dimension :: int
  board :: grid
  cars :: "car list"

definition Game :: "int \<Rightarrow> game" where
  "Game d = \<lparr>board_dimension = d, board = ESTADO_INICIAL, cars = []\<rparr>"

section \<open>Python lists, exceptions and statements\<close>

datatype error = IndexError

text \<open>
  An index into a Python list: a negative index counts from the end, anything outside
  \<open>-len .. len - 1\<close> raises \<^verbatim>\<open>IndexError\<close>.
\<close>

definition py_index :: "'a list \<Rightarrow> int \<Rightarrow> error + nat" where
  "py_index xs i =
     (let n = int (length xs)
      in if 0 \<le> i \<and> i < n then Inr (nat i)
         else if - n \<le> i \<and> i < 0 then Inr (nat (i + n))
         else Inl IndexError)"

definition py_get :: "'a list \<Rightarrow> int \<Rightarrow> error + 'a" where
  "py_get xs i = (case py_index xs i of Inl e \<Rightarrow> Inl e | Inr k \<Rightarrow> Inr (xs ! k))"

text \<open>\<^verbatim>\<open>range(a, b)\<close>\<close>

definition py_range :: "int \<Rightarrow> int \<Rightarrow> int list" where
  "py_range a b = [a..b - 1]"

text \<open>
  A statement runs on a state and either completes or raises; in both cases the state it
  leaves behind is returned, since the writes made before an exception stay.
\<close>

type_synonym 's stmt = "'s \<Rightarrow> (error + unit) \<times> 's"

definition skip :: "'s stmt" where
  "skip s = (Inr (), s)"

definition seq :: "'s stmt \<Rightarrow> 's stmt \<Rightarrow> 's stmt" where
  "seq p q s = (case p s of (Inl e, s') \<Rightarrow> (Inl e, s') | (Inr u, s') \<Rightarrow> q s')"

fun for_each :: "'a list \<Rightarrow> ('a \<Rightarrow> 's stmt) \<Rightarrow> 's stmt" where
  "for_each [] body s = (Inr (), s)"
| "for_each (x # xs) body s =
     (case body x s of (Inl e, s') \<Rightarrow> (Inl e, s') | (Inr u, s') \<Rightarrow> for_each xs body s')"

text \<open>
  \<^verbatim>\<open>m[i][j]\<close> and \<^verbatim>\<open>m[i][j] = v\<close> on a list of lists. The rows of the boards of this
  program are distinct list objects, so the write is a replacement of row \<open>i\<close>.
\<close>

definition load :: "'a list list \<Rightarrow> int \<Rightarrow> int \<Rightarrow> error + 'a" where
  "load m i j =
     (case py_index m i of
        Inl e \<Rightarrow> Inl e
      | Inr i' \<Rightarrow> (case py_index (m ! i') j of Inl e \<Rightarrow> Inl e | Inr j' \<Rightarrow> Inr (m ! i' ! j')))"

definition store :: "int \<Rightarrow> int \<Rightarrow> 'a \<Rightarrow> 'a list list stmt" where
  "store i j v m =
     (case py_index m i of
        Inl e \<Rightarrow> (Inl e, m)
      | Inr i' \<Rightarrow>
          (case py_index (m ! i') j of
             Inl e \<Rightarrow> (Inl e, m)
           | Inr j' \<Rightarrow> (Inr (), m[i' := (m ! i')[j' := v]])))"

section \<open>Scanning the board: \<^verbatim>\<open>Game.find_cars\<close>\<close>

definition unvisited :: "bool list list \<Rightarrow> nat" where
  "unvisited visited = sum_list (map (\<lambda>row. length (filter Not row)) visited)"

text \<open>
  The \<^verbatim>\<open>while stack:\<close> loop. The Python stack is a list that grows and shrinks at its
  end; here the top of the stack is the head of the list, so the two \<^verbatim>\<open>append\<close>s of
  the loop body appear in reverse order. \<open>t\<close> is \<^verbatim>\<open>car_type\<close>.
\<close>

function dfs ::
  "int \<Rightarrow> grid \<Rightarrow> cell \<Rightarrow> orientation \<Rightarrow> (int \<times> int) list \<Rightarrow> bool list list \<Rightarrow>
   (int \<times> int) list \<Rightarrow> (error + unit) \<times> bool list list \<times> (int \<times> int) list" where
  "dfs d b t ori [] visited car_parts = (Inr (), visited, car_parts)"
| "dfs d b t ori ((curr_r, curr_c) # stack) visited car_parts =
     (if \<not> ((0 \<le> curr_r \<and> curr_r < d) \<and> (0 \<le> curr_c \<and> curr_c < d))
      then dfs d b t ori stack visited car_parts
      else
        (case load visited curr_r curr_c of
           Inl e \<Rightarrow> (Inl e, visited, car_parts)
         | Inr seen \<Rightarrow>
             if seen then dfs d b t ori stack visited car_parts
             else
               (case load b curr_r curr_c of
                  Inl e \<Rightarrow> (Inl e, visited, car_parts)
                | Inr x \<Rightarrow>
                    if x \<noteq> t then dfs d b t ori stack visited car_parts
                    else
                      (case store curr_r curr_c True visited of
                         (Inl e, visited') \<Rightarrow> (Inl e, visited', car_parts)
                       | (Inr u, visited') \<Rightarrow>
                           if ori = Horizontal
                           then dfs d b t ori
                                  ((curr_r, curr_c - 1) # (curr_r, curr_c + 1) # stack)
                                  visited' (car_parts @ [(curr_r, curr_c)])
                           else dfs d b t ori
                                  ((curr_r - 1, curr_c) # (curr_r + 1, curr_c) # stack)
                                  visited' (car_parts @ [(curr_r, curr_c)])))))"
  by pat_completeness auto

text \<open>\<^verbatim>\<open>min(...)\<close> and \<^verbatim>\<open>max(...)\<close> over a sequence with first element \<open>x\<close> and rest \<open>xs\<close>.\<close>

definition py_min :: "int \<Rightarrow> int list \<Rightarrow> int" where
  "py_min x xs = fold min xs x"

definition py_max :: "int \<Rightarrow> int list \<Rightarrow> int" where
  "py_max x xs = fold max xs x"

text \<open>The body of the two nested \<^verbatim>\<open>for\<close> statements, on the locals \<^verbatim>\<open>visited\<close> and the attribute \<^verbatim>\<open>cars\<close>.\<close>

definition scan_cell :: "int \<Rightarrow> grid \<Rightarrow> int \<Rightarrow> int \<Rightarrow> (bool list list \<times> car list) stmt" where
  "scan_cell d b r c = (\<lambda>(visited, cs).
     (case load b r c of
        Inl e \<Rightarrow> (Inl e, visited, cs)
      | Inr car_type \<Rightarrow>
          if car_type = Empty then (Inr (), visited, cs)
          else
            (case load visited r c of
               Inl e \<Rightarrow> (Inl e, visited, cs)
             | Inr seen \<Rightarrow>
                 if seen then (Inr (), visited, cs)
                 else
                   (let ori = (if car_type = H then Horizontal else Vertical)
                    in case dfs d b car_type ori [(r, c)] visited [] of
                         (Inl e, visited', car_parts) \<Rightarrow> (Inl e, visited', cs)
                       | (Inr u, visited', car_parts) \<Rightarrow>
                           (case car_parts of
                              [] \<Rightarrow> (Inr (), visited', cs)
                            | p # ps \<Rightarrow>
                                (Inr (), visited',
                                 cs @ [Car (py_min (fst p) (map fst ps), py_min (snd p) (map snd ps))
                                           (py_max (fst p) (map fst ps), py_max (snd p) (map snd ps))
                                           ori]))))))"

definition scan :: "int \<Rightarrow> grid \<Rightarrow> (error + unit) \<times> car list" where
  "scan d b =
     (let visited = replicate (nat d) (replicate (nat d) False);
          (res, visited', cs) =
             for_each (py_range 0 d) (\<lambda>r. for_each (py_range 0 d) (\<lambda>c. scan_cell d b r c))
               (visited, [])
      in (res, cs))"

definition find_cars :: "game \<Rightarrow> (error + unit) \<times> game" where
  "find_cars g = (let (res, cs) = scan (board_dimension g) (board g) in (res, g\<lparr>cars := cs\<rparr>))"

section \<open>The move helpers\<close>

text \<open>
  \<^verbatim>\<open>Game._move_up\<close> and \<^verbatim>\<open>Game._move_down\<close> (an Isabelle name cannot start with an
  underscore). The local \<^verbatim>\<open>orientation\<close> of the source is the marker "v" or "h" that is
  written; \<^verbatim>\<open>print(car)\<close> in \<^verbatim>\<open>_move_down\<close> writes to the terminal only.
\<close>

definition move_up_board :: "car \<Rightarrow> grid stmt" where
  "move_up_board c =
     (let marker = (if orientation c = Vertical then V else H)
      in seq
           (if marker = H
            then (let (i, start_j) = start_pos c; end_j = snd (end_pos c)
                  in for_each (py_range start_j (end_j + 1))
                       (\<lambda>j. seq (store i j Empty) (store (i - 1) j marker)))
            else skip)
           (if marker = V
            then (let (start_i, j) = start_pos c; end_i = fst (end_pos c)
                  in seq (for_each (py_range start_i (end_i + 1)) (\<lambda>i. store i j Empty))
                         (for_each (py_range start_i (end_i + 1)) (\<lambda>i. store (i - 1) j marker)))
            else skip))"

definition move_up :: "game \<Rightarrow> int \<Rightarrow> (error + unit) \<times> game" where
  "move_up g car_num =
     (case py_get (cars g) (car_num - 1) of
        Inl e \<Rightarrow> (Inl e, g)
      | Inr c \<Rightarrow> (let (res, b) = move_up_board c (board g) in (res, g\<lparr>board := b\<rparr>)))"

definition move_down_board :: "car \<Rightarrow> grid stmt" where
  "move_down_board c =
     (let marker = (if orientation c = Vertical then V else H)
      in seq
           (if marker = H
            then (let (start_i, start_j) = start_pos c;
                      (end_i, end_j) = (start_i + 1, snd (end_pos c))
                  in for_each (py_range start_j (end_j + 1))
                       (\<lambda>j. seq (store start_i j Empty) (store end_i j marker)))
            else skip)
           (if marker = V
            then (let (start_i, j) = start_pos c; end_i = fst (end_pos c)
                  in seq (for_each (py_range start_i (end_i + 1)) (\<lambda>i. store i j Empty))
                         (for_each (py_range start_i (end_i + 1)) (\<lambda>i. store (i + 1) j marker)))
            else skip))"

definition move_down :: "game \<Rightarrow> int \<Rightarrow> (error + unit) \<times> game" where
  "move_down g car_num =
     (case py_get (cars g) (car_num - 1) of
        Inl e \<Rightarrow> (Inl e, g)
      | Inr c \<Rightarrow> (let (res, b) = move_down_board c (board g) in (res, g\<lparr>board := b\<rparr>)))"

text \<open>\<^verbatim>\<open>Game.move\<close>: the body is \<^verbatim>\<open>pass\<close>, the call returns \<^verbatim>\<open>None\<close>.\<close>

definition move :: "game \<Rightarrow> int \<Rightarrow> direction \<Rightarrow> (error + unit) \<times> game" where
  "move g car_idx dir = (Inr (), g)"

section \<open>The goal check\<close>

text \<open>
  Modelled from the spec: the source has no goal check, it only holds the constant
  \<^verbatim>\<open>ESTADO_OBJETIVO\<close> and never reads it. Following section 4.2 of the specification,
  the target footprint is the non-empty region of \<^verbatim>\<open>ESTADO_OBJETIVO\<close>.
\<close>

definition target_cells :: "grid \<Rightarrow> (int \<times> int) list" where
  "target_cells goal =
     concat (map (\<lambda>r. concat (map (\<lambda>c. if load goal r c = Inr Empty then [] else [(r, c)])
                                  (py_range 0 (int (length (goal ! nat r))))))
                 (py_range 0 (int (length goal))))"

text \<open>
  Modelled from the spec: \<^verbatim>\<open>isSolved\<close> is missing from the source. It reads the board only
  and is true when every target cell carries the marker of the target.
\<close>

definition isSolved :: "game \<Rightarrow> bool" where
  "isSolved g =
     list_all (\<lambda>(r, c). load (board g) r c = load ESTADO_OBJETIVO r c)
       (target_cells ESTADO_OBJETIVO)"

section \<open>Straight runs of a marker\<close>

text \<open>
  What the scan is compared with. A run starts at every occupied cell whose predecessor
  along the axis of its marker (the cell to the left for "h", the cell above for "v") does
  not carry that marker, and it extends along that axis for as long as the marker repeats.
  \<open>cell_in\<close> reads a cell inside the \<open>d\<close> by \<open>d\<close> square and is \<open>None\<close> outside it;
  \<open>cells\<close> lists the square in row-major order.
\<close>

definition ori_of :: "cell \<Rightarrow> orientation" where
  "ori_of t = (if t = H then Horizontal else Vertical)"

fun step :: "orientation \<Rightarrow> int \<times> int \<Rightarrow> int \<Rightarrow> int \<times> int" where
  "step Horizontal (r, c) i = (r, c + i)"
| "step Vertical (r, c) i = (r + i, c)"

definition cell_in :: "int \<Rightarrow> 'a list list \<Rightarrow> int \<times> int \<Rightarrow> 'a option" where
  "cell_in d m p =
     (case p of (r, c) \<Rightarrow>
        if (0 \<le> r \<and> r < d) \<and> (0 \<le> c \<and> c < d) then Some (m ! nat r ! nat c) else None)"

definition run_length :: "int \<Rightarrow> grid \<Rightarrow> cell \<Rightarrow> int \<times> int \<Rightarrow> nat" where
  "run_length d b t p =
     length (takeWhile (\<lambda>i. cell_in d b (step (ori_of t) p (int i)) = Some t) [0..<nat d])"

definition run_at :: "int \<Rightarrow> grid \<Rightarrow> int \<times> int \<Rightarrow> car list" where
  "run_at d b p =
     (case cell_in d b p of
        None \<Rightarrow> []
      | Some t \<Rightarrow>
          if t \<noteq> Empty \<and> cell_in d b (step (ori_of t) p (- 1)) \<noteq> Some t
          then [Car p (step (ori_of t) p (int (run_length d b t p) - 1)) (ori_of t)]
          else [])"

definition cells :: "int \<Rightarrow> (int \<times> int) list" where
  "cells d = concat (map (\<lambda>r. map (Pair r) (py_range 0 d)) (py_range 0 d))"

definition runs :: "int \<Rightarrow> grid \<Rightarrow> car list" where
  "runs d b = concat (map (run_at d b) (cells d))"

text \<open>What it means for a car to be a maximal straight run of \<open>k\<close> cells with marker \<open>t\<close>.\<close>

definition maximal_run :: "int \<Rightarrow> grid \<Rightarrow> car \<Rightarrow> bool" where
  "maximal_run d b c \<longleftrightarrow>
     (\<exists>t k. t \<noteq> Empty \<and> orientation c = ori_of t \<and> 0 < k
        \<and> end_pos c = step (ori_of t) (start_pos c) (int k - 1)
        \<and> car_length c = int k
        \<and> (\<forall>i<k. cell_in d b (step (ori_of t) (start_pos c) (int i)) = Some t)
        \<and> cell_in d b (step (ori_of t) (start_pos c) (- 1)) \<noteq> Some t
        \<and> cell_in d b (step (ori_of t) (start_pos c) (int k)) \<noteq> Some t)"

section \<open>Boards used in the examples\<close>

text \<open>The initial board after car 1 has moved up once: the vertical car touches row 0.\<close>

definition board_top :: grid where
  "board_top =
    [[Empty, Empty, V, Empty, Empty],
     [Empty, Empty, V, Empty, Empty],
     [Empty, Empty, Empty, Empty, Empty],
     [Empty, Empty, Empty, Empty, Empty],
     [Empty, Empty, Empty, H, H]]"

text \<open>A vertical car in column 2 with a one-cell car directly above it.\<close>

definition board_blocked :: grid where
  "board_blocked =
    [[Empty, Empty, H, Empty, Empty],
     [Empty, Empty, V, Empty, Empty],
     [Empty, Empty, V, Empty, Empty],
     [Empty, Empty, Empty, Empty, Empty],
     [Empty, Empty, Empty, Empty, Empty]]"

text \<open>The board of the example run after \<^verbatim>\<open>_move_up(1)\<close> and \<^verbatim>\<open>_move_up(2)\<close>.\<close>

definition board_demo :: grid where
  "board_demo =
    [[Empty, Empty, V, Empty, Empty],
     [Empty, Empty, V, Empty, Empty],
     [Empty, Empty, Empty, Empty, Empty],
     [Empty, Empty, Empty, H, H],
     [Empty, Empty, Empty, Empty, Empty]]"

text \<open>Two vertical markers side by side.\<close>

definition board_side :: grid where
  "board_side =
    [[Empty, Empty, Empty, Empty, Empty],
     [Empty, V, V, Empty, Empty],
     [Empty, Empty, Empty, Empty, Empty],
     [Empty, Empty, Empty, Empty, Empty],
     [Empty, Empty, Empty, Empty, Empty]]"

text \<open>A game on board \<open>b\<close> whose car collection has just been scanned.\<close>

definition fresh :: "grid \<Rightarrow> game" where
  "fresh b = snd (find_cars \<lparr>board_dimension = 5, board = b, cars = []\<rparr>)"

section \<open>Auxiliary notions for the proofs\<close>

text \<open>The write \<^verbatim>\<open>m[i][j] = v\<close> at indices that are in range, and rectangular boards.\<close>

definition put :: "nat \<Rightarrow> nat \<Rightarrow> 'a \<Rightarrow> 'a list list \<Rightarrow> 'a list list" where
  "put i j v m = m[i := (m ! i)[j := v]]"

definition rect :: "nat \<Rightarrow> nat \<Rightarrow> 'a list list \<Rightarrow> bool" where
  "rect n w m \<longleftrightarrow> length m = n \<and> (\<forall>r<n. length (m ! r) = w)"

text \<open>
  Row-major order of cells, and the invariant of the two nested iterations of the scan: \<open>ds\<close>
  are the cells already passed, \<open>vis\<close> is the array \<^verbatim>\<open>visited\<close>.
\<close>

definition before :: "int \<times> int \<Rightarrow> int \<times> int \<Rightarrow> bool" where
  "before p q \<longleftrightarrow> fst p < fst q \<or> (fst p = fst q \<and> snd p < snd q)"

definition scan_inv :: "int \<Rightarrow> grid \<Rightarrow> (int \<times> int) list \<Rightarrow> bool list list \<Rightarrow> bool" where
  "scan_inv d b ds vis \<longleftrightarrow>
     rect (nat d) (nat d) vis
     \<and> (\<forall>q t. cell_in d vis q = Some True \<and> cell_in d b q = Some t
               \<and> cell_in d b (step (ori_of t) q (- 1)) = Some t
            \<longrightarrow> cell_in d vis (step (ori_of t) q (- 1)) = Some True)
     \<and> (\<forall>q t. cell_in d vis q = Some True \<and> cell_in d b q = Some t
               \<and> cell_in d b (step (ori_of t) q 1) = Some t
            \<longrightarrow> cell_in d vis (step (ori_of t) q 1) = Some True)
     \<and> (\<forall>q \<in> set ds. \<forall>t. cell_in d b q = Some t \<and> t \<noteq> Empty \<longrightarrow> cell_in d vis q = Some True)
     \<and> (\<forall>q. cell_in d vis q = Some True \<and> q \<notin> set ds \<longrightarrow> run_at d b q = [])"

section \<open>Termination of the flood fill\<close>

lemma filter_Not_update:
  "j < length row \<Longrightarrow> \<not> row ! j \<Longrightarrow>
   Suc (length (filter Not (row[j := True]))) = length (filter Not row)"
proof (induction row arbitrary: j)
  case Nil
  then show ?case by simp
next
  case (Cons x row)
  then show ?case by (cases j) auto
qed

lemma unvisited_update:
  assumes "i < length visited" "j < length (visited ! i)" "\<not> visited ! i ! j"
  shows "unvisited (visited[i := (visited ! i)[j := True]]) < unvisited visited"
proof -
  let ?f = "\<lambda>row. length (filter Not row)"
  have less: "?f ((visited ! i)[j := True]) < ?f (visited ! i)"
    using filter_Not_update [OF assms(2,3)] by linarith
  have "\<And>y. i < length xs \<Longrightarrow> y < xs ! i \<Longrightarrow> sum_list (xs[i := y]) < sum_list xs"
    for xs :: "nat list" and i
  proof (induction xs arbitrary: i)
    case Nil
    then show ?case by simp
  next
    case (Cons x xs)
    then show ?case by (cases i) auto
  qed
  from this [of i "map ?f visited" "?f ((visited ! i)[j := True])"] less assms(1)
  show ?thesis by (simp add: unvisited_def map_update)
qed

lemma load_store_unvisited:
  assumes "load visited r c = Inr False" "store r c True visited = (res, visited')"
  shows "unvisited visited' < unvisited visited"
  using assms
  by (auto simp: load_def store_def py_index_def Let_def unvisited_update
           split: sum.splits if_splits)

termination dfs
proof (relation "measure (\<lambda>(d, b, t, ori, stack, visited, car_parts).
                    3 * unvisited visited + length stack)", goal_cases)
  case 1
  then show ?case by simp
next
  case (2 d b t ori curr_r curr_c stack visited car_parts)
  then show ?case by simp
next
  case (3 d b t ori curr_r curr_c stack visited car_parts seen)
  then show ?case by simp
next
  case (4 d b t ori curr_r curr_c stack visited car_parts seen x)
  then show ?case by simp
next
  case (5 d b t ori curr_r curr_c stack visited car_parts seen x res visited' u)
  then have "unvisited visited' < unvisited visited"
    using load_store_unvisited by metis
  then show ?case by simp
next
  case (6 d b t ori curr_r curr_c stack visited car_parts seen x res visited' u)
  then have "unvisited visited' < unvisited visited"
    using load_store_unvisited by metis
  then show ?case by simp
qed

section \<open>The scan on concrete boards\<close>

lemma scan_initial:
  "scan 5 ESTADO_INICIAL = (Inr (), [Car (1, 2) (2, 2) Vertical, Car (4, 3) (4, 4) Horizontal])"
  by code_simp

lemma scan_top:
  "scan 5 board_top = (Inr (), [Car (0, 2) (1, 2) Vertical, Car (4, 3) (4, 4) Horizontal])"
  by code_simp

lemma scan_blocked:
  "scan 5 board_blocked = (Inr (), [Car (0, 2) (0, 2) Horizontal, Car (1, 2) (2, 2) Vertical])"
  by code_simp

lemma fresh_initial:
  "fresh ESTADO_INICIAL =
     \<lparr>board_dimension = 5, board = ESTADO_INICIAL,
      cars = [Car (1, 2) (2, 2) Vertical, Car (4, 3) (4, 4) Horizontal]\<rparr>"
  by (simp add: fresh_def find_cars_def scan_initial)

lemma fresh_top:
  "fresh board_top =
     \<lparr>board_dimension = 5, board = board_top,
      cars = [Car (0, 2) (1, 2) Vertical, Car (4, 3) (4, 4) Horizontal]\<rparr>"
  by (simp add: fresh_def find_cars_def scan_top)

lemma fresh_blocked:
  "fresh board_blocked =
     \<lparr>board_dimension = 5, board = board_blocked,
      cars = [Car (0, 2) (0, 2) Horizontal, Car (1, 2) (2, 2) Vertical]\<rparr>"
  by (simp add: fresh_def find_cars_def scan_blocked)

lemma target_cells_objetivo: "target_cells ESTADO_OBJETIVO = [(2, 3), (2, 4)]"
  by code_simp

lemma load_objetivo: "load ESTADO_OBJETIVO 2 3 = Inr H" "load ESTADO_OBJETIVO 2 4 = Inr H"
  by code_simp+

lemma scan_demo:
  "scan 5 board_demo = (Inr (), [Car (0, 2) (1, 2) Vertical, Car (3, 3) (3, 4) Horizontal])"
  by code_simp

lemma fresh_demo:
  "fresh board_demo =
     \<lparr>board_dimension = 5, board = board_demo,
      cars = [Car (0, 2) (1, 2) Vertical, Car (3, 3) (3, 4) Horizontal]\<rparr>"
  by (simp add: fresh_def find_cars_def scan_demo)

lemma scan_side:
  "scan 5 board_side = (Inr (), [Car (1, 1) (1, 1) Vertical, Car (1, 2) (1, 2) Vertical])"
  by code_simp

lemma runs_side:
  "runs 5 board_side = [Car (1, 1) (1, 1) Vertical, Car (1, 2) (1, 2) Vertical]"
  by code_simp

section \<open>The move helpers on a rectangular board\<close>

lemma rect_nth: "rect n w m \<Longrightarrow> r < n \<Longrightarrow> length (m ! r) = w"
  by (simp add: rect_def)

lemma rect_length: "rect n w m \<Longrightarrow> length m = n"
  by (simp add: rect_def)

lemma rect_put: "rect n w m \<Longrightarrow> rect n w (put i j v m)"
proof -
  assume a: "rect n w m"
  have "length (put i j v m ! r) = w" if "r < n" for r
    using a that by (cases "r = i") (simp_all add: put_def rect_def)
  then show ?thesis using a by (simp add: rect_def put_def)
qed

lemma put_nth:
  "r < length m \<Longrightarrow> k < length (m ! r) \<Longrightarrow>
   put i j v m ! r ! k = (if r = i \<and> k = j then v else m ! r ! k)"
  by (cases "r = i"; cases "k = j") (simp_all add: put_def)

lemma py_index_mod:
  assumes "- int (length xs) \<le> i" "i < int (length xs)"
  shows "py_index xs i = Inr (nat (i mod int (length xs)))"
proof (cases "0 \<le> i")
  case True
  with assms show ?thesis by (simp add: py_index_def)
next
  case False
  have "(i + int (length xs)) mod int (length xs) = i + int (length xs)"
    using assms False by (intro mod_pos_pos_trivial) simp_all
  then have "i mod int (length xs) = i + int (length xs)"
    by (simp only: mod_add_self2)
  then show ?thesis using assms False by (simp add: py_index_def)
qed

lemma store_put:
  assumes "rect n w m" "- int n \<le> i" "i < int n" "0 \<le> j" "j < int w"
  shows "store i j v m = (Inr (), put (nat (i mod int n)) (nat j) v m)"
proof -
  have n: "length m = n" using assms(1) by (rule rect_length)
  have i: "py_index m i = Inr (nat (i mod int n))"
    using py_index_mod [of m i] assms n by simp
  have "0 < int n" using assms by linarith
  then have "nat (i mod int n) < n"
    by (metis Euclidean_Rings.pos_mod_bound nat_less_iff Euclidean_Rings.pos_mod_sign)
  then have "length (m ! nat (i mod int n)) = w" using assms(1) by (simp add: rect_nth)
  then have j: "py_index (m ! nat (i mod int n)) j = Inr (nat j)"
    using assms by (simp add: py_index_def)
  show ?thesis by (simp add: store_def i j put_def)
qed

lemma for_each_store:
  assumes "rect n w m" "0 \<le> j" "j < int w" "\<forall>i \<in> set xs. - int n \<le> f i \<and> f i < int n"
  shows "for_each xs (\<lambda>i. store (f i) j v) m =
           (Inr (), fold (\<lambda>i. put (nat (f i mod int n)) (nat j) v) xs m)"
  using assms
proof (induction xs arbitrary: m)
  case Nil
  then show ?case by simp
next
  case (Cons x xs)
  have "store (f x) j v m = (Inr (), put (nat (f x mod int n)) (nat j) v m)"
    using Cons.prems by (simp add: store_put)
  moreover have "rect n w (put (nat (f x mod int n)) (nat j) v m)"
    using Cons.prems(1) by (rule rect_put)
  ultimately show ?case using Cons by simp
qed

lemma rect_fold_put: "rect n w m \<Longrightarrow> rect n w (fold (\<lambda>i. put (g i) (h i) (u i)) xs m)"
  by (induction xs arbitrary: m) (simp_all add: rect_put)

lemma fold_put_nth:
  assumes "rect n w m" "r < n" "k < w"
  shows "fold (\<lambda>i. put (g i) j v) xs m ! r ! k =
           (if k = j \<and> r \<in> g ` set xs then v else m ! r ! k)"
  using assms(1)
proof (induction xs arbitrary: m)
  case Nil
  then show ?case by simp
next
  case (Cons x xs)
  have r: "rect n w (put (g x) j v m)" using Cons.prems by (rule rect_put)
  have "put (g x) j v m ! r ! k = (if r = g x \<and> k = j then v else m ! r ! k)"
    using Cons.prems assms(2,3) by (simp add: put_nth rect_length rect_nth)
  then show ?case using Cons.IH [OF r] by auto
qed


lemma set_py_range: "set (py_range a (b + 1)) = {a..b}"
  by (simp add: py_range_def)

lemma nat_mod_eq_iff:
  "0 < n \<Longrightarrow> r = nat (x mod int n) \<longleftrightarrow> int r = x mod int n"
  by (metis Euclidean_Rings.pos_mod_sign int_nat_eq nat_int of_nat_0_less_iff)

lemma vertical_shift:
  assumes "rect n w b" "0 \<le> j" "j < int w" "0 \<le> s" "e < int n"
    and f: "\<forall>i \<in> {s..e}. - int n \<le> f i \<and> f i < int n"
  shows "\<exists>b'. seq (for_each (py_range s (e + 1)) (\<lambda>i. store i j Empty))
                  (for_each (py_range s (e + 1)) (\<lambda>i. store (f i) j v)) b = (Inr (), b')
            \<and> rect n w b'
            \<and> (\<forall>r<n. \<forall>k<w. b' ! r ! k =
                 (if int k = j \<and> (\<exists>i \<in> {s..e}. int r = f i mod int n) then v
                  else if int k = j \<and> s \<le> int r \<and> int r \<le> e then Empty
                  else b ! r ! k))"
proof -
  let ?xs = "py_range s (e + 1)"
  let ?b1 = "fold (\<lambda>i. put (nat (i mod int n)) (nat j) Empty) ?xs b"
  let ?b2 = "fold (\<lambda>i. put (nat (f i mod int n)) (nat j) v) ?xs ?b1"
  have r1: "rect n w ?b1" using assms(1) by (rule rect_fold_put)
  have r2: "rect n w ?b2" using r1 by (rule rect_fold_put)
  have c: "for_each ?xs (\<lambda>i. store i j Empty) b = (Inr (), ?b1)"
    using assms by (intro for_each_store) (auto simp: set_py_range)
  have w: "for_each ?xs (\<lambda>i. store (f i) j v) ?b1 = (Inr (), ?b2)"
    using r1 assms(2,3) f by (intro for_each_store) (auto simp: set_py_range)
  have cells: "?b2 ! r ! k =
                 (if int k = j \<and> (\<exists>i \<in> {s..e}. int r = f i mod int n) then v
                  else if int k = j \<and> s \<le> int r \<and> int r \<le> e then Empty
                  else b ! r ! k)" if "r < n" "k < w" for r k
  proof -
    have n: "0 < n" using that by simp
    have kj: "k = nat j \<longleftrightarrow> int k = j" using assms(2) by auto
    have in1: "r \<in> (\<lambda>i. nat (i mod int n)) ` set ?xs \<longleftrightarrow> s \<le> int r \<and> int r \<le> e"
    proof
      assume "r \<in> (\<lambda>i. nat (i mod int n)) ` set ?xs"
      then obtain i where i: "s \<le> i" "i \<le> e" "r = nat (i mod int n)"
        by (auto simp: set_py_range)
      then have "i mod int n = i" using assms(4,5) by (simp add: mod_pos_pos_trivial)
      then show "s \<le> int r \<and> int r \<le> e" using i assms(4) by simp
    next
      assume a: "s \<le> int r \<and> int r \<le> e"
      then have "int r mod int n = int r" using that by (simp add: mod_pos_pos_trivial)
      then have "r = nat (int r mod int n)" by simp
      then show "r \<in> (\<lambda>i. nat (i mod int n)) ` set ?xs"
        using a unfolding set_py_range by (intro image_eqI [where x = "int r"]) simp_all
    qed
    have in2: "r \<in> (\<lambda>i. nat (f i mod int n)) ` set ?xs \<longleftrightarrow> (\<exists>i \<in> {s..e}. int r = f i mod int n)"
      using n by (auto simp: set_py_range nat_mod_eq_iff)
    show ?thesis
      using fold_put_nth [OF r1 that, of "\<lambda>i. nat (f i mod int n)" "nat j" v ?xs]
            fold_put_nth [OF assms(1) that, of "\<lambda>i. nat (i mod int n)" "nat j" Empty ?xs]
      by (simp only: in1 in2 kj)
  qed
  show ?thesis
    using c w r2 cells by (intro exI [where x = ?b2]) (simp add: seq_def)
qed


lemma for_each_store2:
  assumes "rect n w m" "- int n \<le> i1" "i1 < int n" "- int n \<le> i2" "i2 < int n"
    and "\<forall>j \<in> set xs. 0 \<le> j \<and> j < int w"
  shows "for_each xs (\<lambda>j. seq (store i1 j v1) (store i2 j v2)) m =
           (Inr (), fold (\<lambda>j m. put (nat (i2 mod int n)) (nat j) v2
                                  (put (nat (i1 mod int n)) (nat j) v1 m)) xs m)"
  using assms(1,6)
proof (induction xs arbitrary: m)
  case Nil
  then show ?case by simp
next
  case (Cons x xs)
  let ?m1 = "put (nat (i1 mod int n)) (nat x) v1 m"
  let ?m2 = "put (nat (i2 mod int n)) (nat x) v2 ?m1"
  have r1: "rect n w ?m1" using Cons.prems(1) by (rule rect_put)
  have r2: "rect n w ?m2" using r1 by (rule rect_put)
  have "store i1 x v1 m = (Inr (), ?m1)"
    using Cons.prems assms(2,3) by (simp add: store_put)
  moreover have "store i2 x v2 ?m1 = (Inr (), ?m2)"
    using r1 Cons.prems(2) assms(4,5) by (simp add: store_put)
  ultimately have "seq (store i1 x v1) (store i2 x v2) m = (Inr (), ?m2)"
    by (simp add: seq_def)
  then show ?case using Cons.IH [OF r2] Cons.prems(2) by simp
qed

lemma rect_fold_put2:
  "rect n w m \<Longrightarrow> rect n w (fold (\<lambda>j m. put r2 (h j) v2 (put r1 (h j) v1 m)) xs m)"
  by (induction xs arbitrary: m) (simp_all add: rect_put)

lemma fold_put2_nth:
  assumes "rect n w m" "r < n" "k < w"
  shows "fold (\<lambda>j m. put r2 (h j) v2 (put r1 (h j) v1 m)) xs m ! r ! k =
           (if k \<in> h ` set xs \<and> r = r2 then v2
            else if k \<in> h ` set xs \<and> r = r1 then v1
            else m ! r ! k)"
  using assms(1)
proof (induction xs arbitrary: m)
  case Nil
  then show ?case by simp
next
  case (Cons x xs)
  let ?m1 = "put r1 (h x) v1 m"
  let ?m2 = "put r2 (h x) v2 ?m1"
  have r1: "rect n w ?m1" using Cons.prems by (rule rect_put)
  have r2: "rect n w ?m2" using r1 by (rule rect_put)
  have "?m1 ! r ! k = (if r = r1 \<and> k = h x then v1 else m ! r ! k)"
    using Cons.prems assms(2,3) by (simp add: put_nth rect_length rect_nth)
  moreover have "?m2 ! r ! k = (if r = r2 \<and> k = h x then v2 else ?m1 ! r ! k)"
    using r1 assms(2,3) by (simp add: put_nth rect_length rect_nth)
  ultimately show ?case using Cons.IH [OF r2] by auto
qed

lemma horizontal_shift:
  assumes "rect n w b" "- int n \<le> i1" "i1 < int n" "- int n \<le> i2" "i2 < int n"
    and "0 \<le> sj" "ej < int w"
  shows "\<exists>b'. for_each (py_range sj (ej + 1)) (\<lambda>j. seq (store i1 j Empty) (store i2 j v)) b
                 = (Inr (), b')
            \<and> rect n w b'
            \<and> (\<forall>r<n. \<forall>k<w. b' ! r ! k =
                 (if sj \<le> int k \<and> int k \<le> ej \<and> int r = i2 mod int n then v
                  else if sj \<le> int k \<and> int k \<le> ej \<and> int r = i1 mod int n then Empty
                  else b ! r ! k))"
proof -
  let ?xs = "py_range sj (ej + 1)"
  let ?b' = "fold (\<lambda>j m. put (nat (i2 mod int n)) (nat j) v
                           (put (nat (i1 mod int n)) (nat j) Empty m)) ?xs b"
  have run: "for_each ?xs (\<lambda>j. seq (store i1 j Empty) (store i2 j v)) b = (Inr (), ?b')"
    using assms by (intro for_each_store2) (auto simp: set_py_range)
  have r: "rect n w ?b'" using assms(1) by (rule rect_fold_put2)
  have cells: "?b' ! r ! k =
                 (if sj \<le> int k \<and> int k \<le> ej \<and> int r = i2 mod int n then v
                  else if sj \<le> int k \<and> int k \<le> ej \<and> int r = i1 mod int n then Empty
                  else b ! r ! k)" if "r < n" "k < w" for r k
  proof -
    have n: "0 < n" using that by simp
    have ink: "k \<in> nat ` set ?xs \<longleftrightarrow> sj \<le> int k \<and> int k \<le> ej"
    proof
      assume "k \<in> nat ` set ?xs"
      then obtain x where "sj \<le> x" "x \<le> ej" "k = nat x" by (auto simp: set_py_range)
      then show "sj \<le> int k \<and> int k \<le> ej" using assms(6) by simp
    next
      assume "sj \<le> int k \<and> int k \<le> ej"
      then show "k \<in> nat ` set ?xs"
        unfolding set_py_range by (intro image_eqI [where x = "int k"]) simp_all
    qed
    show ?thesis
      using fold_put2_nth [OF assms(1) that, of "nat (i2 mod int n)" nat v
                              "nat (i1 mod int n)" Empty ?xs]
      by (simp only: ink nat_mod_eq_iff [OF n] conj_assoc)
  qed
  show ?thesis using run r cells by (intro exI [where x = ?b']) simp
qed


lemma rows_up_wrap:
  assumes "0 \<le> e" "e < int n" "r < n"
  shows "(\<exists>i \<in> {0..e}. int r = (i - 1) mod int n) \<longleftrightarrow> int r < e \<or> r = n - 1"
proof
  assume "\<exists>i \<in> {0..e}. int r = (i - 1) mod int n"
  then obtain i where i: "0 \<le> i" "i \<le> e" "int r = (i - 1) mod int n" by auto
  show "int r < e \<or> r = n - 1"
  proof (cases "i = 0")
    case True
    then have "int r = int n - 1" using i assms by (simp add: zmod_minus1)
    then show ?thesis by linarith
  next
    case False
    then have "(i - 1) mod int n = i - 1" using i assms by (simp add: mod_pos_pos_trivial)
    then show ?thesis using i by simp
  qed
next
  assume a: "int r < e \<or> r = n - 1"
  show "\<exists>i \<in> {0..e}. int r = (i - 1) mod int n"
  proof (cases "int r < e")
    case True
    then have "int r = (int r + 1 - 1) mod int n" using assms by (simp add: mod_pos_pos_trivial)
    then show ?thesis using True by (intro bexI [where x = "int r + 1"]) simp_all
  next
    case False
    then have "int r = int n - 1" using a assms by linarith
    then have "int r = (0 - 1) mod int n" using assms by (simp add: zmod_minus1)
    then show ?thesis using assms by (intro bexI [where x = 0]) simp_all
  qed
qed

lemma rows_up:
  assumes "1 \<le> s" "e < int n"
  shows "(\<exists>i \<in> {s..e}. int r = (i - 1) mod int n) \<longleftrightarrow> s - 1 \<le> int r \<and> int r < e"
proof
  assume "\<exists>i \<in> {s..e}. int r = (i - 1) mod int n"
  then obtain i where i: "s \<le> i" "i \<le> e" "int r = (i - 1) mod int n" by auto
  then have "(i - 1) mod int n = i - 1" using assms by (simp add: mod_pos_pos_trivial)
  then show "s - 1 \<le> int r \<and> int r < e" using i by simp
next
  assume a: "s - 1 \<le> int r \<and> int r < e"
  then have "int r = (int r + 1 - 1) mod int n" using assms by (simp add: mod_pos_pos_trivial)
  then show "\<exists>i \<in> {s..e}. int r = (i - 1) mod int n"
    using a by (intro bexI [where x = "int r + 1"]) simp_all
qed

lemma rows_down:
  assumes "0 \<le> s" "e + 1 < int n"
  shows "(\<exists>i \<in> {s..e}. int r = (i + 1) mod int n) \<longleftrightarrow> s < int r \<and> int r \<le> e + 1"
proof
  assume "\<exists>i \<in> {s..e}. int r = (i + 1) mod int n"
  then obtain i where i: "s \<le> i" "i \<le> e" "int r = (i + 1) mod int n" by auto
  then have "(i + 1) mod int n = i + 1" using assms by (simp add: mod_pos_pos_trivial)
  then show "s < int r \<and> int r \<le> e + 1" using i by simp
next
  assume a: "s < int r \<and> int r \<le> e + 1"
  then have "int r = (int r - 1 + 1) mod int n" using assms by (simp add: mod_pos_pos_trivial)
  then show "\<exists>i \<in> {s..e}. int r = (i + 1) mod int n"
    using a by (intro bexI [where x = "int r - 1"]) simp_all
qed

lemma seq_skip_left: "seq skip q = q"
  by (rule ext) (simp add: seq_def skip_def)

lemma seq_skip_right: "seq p skip = p"
  by (rule ext) (simp add: seq_def skip_def split: prod.splits sum.splits)

lemma move_up_board_vertical:
  assumes "orientation c = Vertical" "start_pos c = (s, j)"
  shows "move_up_board c b =
           seq (for_each (py_range s (fst (end_pos c) + 1)) (\<lambda>i. store i j Empty))
               (for_each (py_range s (fst (end_pos c) + 1)) (\<lambda>i. store (i - 1) j V)) b"
  using assms by (simp add: move_up_board_def seq_skip_left Let_def)

lemma move_down_board_vertical:
  assumes "orientation c = Vertical" "start_pos c = (s, j)"
  shows "move_down_board c b =
           seq (for_each (py_range s (fst (end_pos c) + 1)) (\<lambda>i. store i j Empty))
               (for_each (py_range s (fst (end_pos c) + 1)) (\<lambda>i. store (i + 1) j V)) b"
  using assms by (simp add: move_down_board_def seq_skip_left Let_def)

lemma move_up_board_horizontal:
  assumes "orientation c = Horizontal" "start_pos c = (i, sj)"
  shows "move_up_board c b =
           for_each (py_range sj (snd (end_pos c) + 1))
             (\<lambda>j. seq (store i j Empty) (store (i - 1) j H)) b"
  using assms by (simp add: move_up_board_def seq_skip_right Let_def)

lemma move_down_board_horizontal:
  assumes "orientation c = Horizontal" "start_pos c = (i, sj)"
  shows "move_down_board c b =
           for_each (py_range sj (snd (end_pos c) + 1))
             (\<lambda>j. seq (store i j Empty) (store (i + 1) j H)) b"
  using assms by (simp add: move_down_board_def seq_skip_right Let_def)

lemma rect_board:
  "length b = n \<Longrightarrow> \<forall>row \<in> set b. length row = w \<Longrightarrow> rect n w b"
  by (simp add: rect_def)

lemma rect_rows: "rect n w b \<Longrightarrow> \<forall>row \<in> set b. length row = w"
  by (auto simp: rect_def in_set_conv_nth)

lemma move_up_vertical_inside:
  assumes "py_get (cars g) (car_num - 1) = Inr c"
    and "orientation c = Vertical" "start_pos c = (s, j)" "fst (end_pos c) = e"
    and "1 \<le> s" "s \<le> e" "e < int n" "0 \<le> j" "j < int w"
    and "length (board g) = n" "\<forall>row \<in> set (board g). length row = w"
  shows "\<exists>b'. move_up g car_num = (Inr (), g\<lparr>board := b'\<rparr>)
            \<and> length b' = n \<and> (\<forall>row \<in> set b'. length row = w)
            \<and> (\<forall>r<n. \<forall>k<w. b' ! r ! k =
                 (if int k = j \<and> s - 1 \<le> int r \<and> int r < e then V
                  else if int k = j \<and> int r = e then Empty
                  else board g ! r ! k))"
proof -
  have rect: "rect n w (board g)" using assms(10,11) by (rule rect_board)
  have s0: "0 \<le> s" using assms(5) by simp
  have f: "\<forall>i \<in> {s..e}. - int n \<le> i - 1 \<and> i - 1 < int n" using assms(5,7) by auto
  obtain b' where run: "move_up_board c (board g) = (Inr (), b')"
    and shape: "rect n w b'"
    and cells: "\<forall>r<n. \<forall>k<w. b' ! r ! k =
                 (if int k = j \<and> (\<exists>i \<in> {s..e}. int r = (i - 1) mod int n) then V
                  else if int k = j \<and> s \<le> int r \<and> int r \<le> e then Empty
                  else board g ! r ! k)"
    using vertical_shift [OF rect assms(8,9) s0 assms(7) f, of V]
    unfolding move_up_board_vertical [OF assms(2,3)] assms(4) by blast
  have "b' ! r ! k =
          (if int k = j \<and> s - 1 \<le> int r \<and> int r < e then V
           else if int k = j \<and> int r = e then Empty
           else board g ! r ! k)" if "r < n" "k < w" for r k
    using cells that assms(6) rows_up [OF assms(5,7), of r] by auto
  moreover have "move_up g car_num = (Inr (), g\<lparr>board := b'\<rparr>)"
    using assms(1) run by (simp add: move_up_def)
  ultimately show ?thesis
    using shape rect_rows [OF shape] by (intro exI [where x = b']) (simp add: rect_def)
qed

lemma move_down_vertical_inside:
  assumes "py_get (cars g) (car_num - 1) = Inr c"
    and "orientation c = Vertical" "start_pos c = (s, j)" "fst (end_pos c) = e"
    and "0 \<le> s" "s \<le> e" "e + 1 < int n" "0 \<le> j" "j < int w"
    and "length (board g) = n" "\<forall>row \<in> set (board g). length row = w"
  shows "\<exists>b'. move_down g car_num = (Inr (), g\<lparr>board := b'\<rparr>)
            \<and> length b' = n \<and> (\<forall>row \<in> set b'. length row = w)
            \<and> (\<forall>r<n. \<forall>k<w. b' ! r ! k =
                 (if int k = j \<and> s < int r \<and> int r \<le> e + 1 then V
                  else if int k = j \<and> int r = s then Empty
                  else board g ! r ! k))"
proof -
  have rect: "rect n w (board g)" using assms(10,11) by (rule rect_board)
  have e: "e < int n" using assms(7) by simp
  have f: "\<forall>i \<in> {s..e}. - int n \<le> i + 1 \<and> i + 1 < int n" using assms(5,7) by auto
  obtain b' where run: "move_down_board c (board g) = (Inr (), b')"
    and shape: "rect n w b'"
    and cells: "\<forall>r<n. \<forall>k<w. b' ! r ! k =
                 (if int k = j \<and> (\<exists>i \<in> {s..e}. int r = (i + 1) mod int n) then V
                  else if int k = j \<and> s \<le> int r \<and> int r \<le> e then Empty
                  else board g ! r ! k)"
    using vertical_shift [OF rect assms(8,9,5) e f, of V]
    unfolding move_down_board_vertical [OF assms(2,3)] assms(4) by blast
  have "b' ! r ! k =
          (if int k = j \<and> s < int r \<and> int r \<le> e + 1 then V
           else if int k = j \<and> int r = s then Empty
           else board g ! r ! k)" if "r < n" "k < w" for r k
    using cells that assms(6) rows_down [OF assms(5,7), of r] by auto
  moreover have "move_down g car_num = (Inr (), g\<lparr>board := b'\<rparr>)"
    using assms(1) run by (simp add: move_down_def)
  ultimately show ?thesis
    using shape rect_rows [OF shape] by (intro exI [where x = b']) (simp add: rect_def)
qed

lemma move_horizontal_inside:
  assumes "py_get (cars g) (car_num - 1) = Inr c"
    and "orientation c = Horizontal" "start_pos c = (i, sj)" "snd (end_pos c) = ej"
    and "0 \<le> i" "i < int n" "0 \<le> sj" "ej < int w"
    and "length (board g) = n" "\<forall>row \<in> set (board g). length row = w"
  shows "1 \<le> i \<Longrightarrow>
         \<exists>b'. move_up g car_num = (Inr (), g\<lparr>board := b'\<rparr>)
            \<and> length b' = n \<and> (\<forall>row \<in> set b'. length row = w)
            \<and> (\<forall>r<n. \<forall>k<w. b' ! r ! k =
                 (if sj \<le> int k \<and> int k \<le> ej \<and> int r = i - 1 then H
                  else if sj \<le> int k \<and> int k \<le> ej \<and> int r = i then Empty
                  else board g ! r ! k))"
    and "i + 1 < int n \<Longrightarrow>
         \<exists>b'. move_down g car_num = (Inr (), g\<lparr>board := b'\<rparr>)
            \<and> length b' = n \<and> (\<forall>row \<in> set b'. length row = w)
            \<and> (\<forall>r<n. \<forall>k<w. b' ! r ! k =
                 (if sj \<le> int k \<and> int k \<le> ej \<and> int r = i + 1 then H
                  else if sj \<le> int k \<and> int k \<le> ej \<and> int r = i then Empty
                  else board g ! r ! k))"
proof -
  have rect: "rect n w (board g)" using assms(9,10) by (rule rect_board)
  have i0: "- int n \<le> i" using assms(5) by simp
  have im: "i mod int n = i" using assms(5,6) by (simp add: mod_pos_pos_trivial)
  {
    assume up: "1 \<le> i"
    have lo: "- int n \<le> i - 1" and hi: "i - 1 < int n" using up assms(6) by simp_all
    have m: "(i - 1) mod int n = i - 1" using up assms(6) by (simp add: mod_pos_pos_trivial)
    obtain b' where run: "move_up_board c (board g) = (Inr (), b')"
      and shape: "rect n w b'"
      and cells: "\<forall>r<n. \<forall>k<w. b' ! r ! k =
                 (if sj \<le> int k \<and> int k \<le> ej \<and> int r = i - 1 then H
                  else if sj \<le> int k \<and> int k \<le> ej \<and> int r = i then Empty
                  else board g ! r ! k)"
      using horizontal_shift [OF rect i0 assms(6) lo hi assms(7,8), of H]
      unfolding move_up_board_horizontal [OF assms(2,3)] assms(4) im m by blast
    have "move_up g car_num = (Inr (), g\<lparr>board := b'\<rparr>)"
      using assms(1) run by (simp add: move_up_def)
    then show "\<exists>b'. move_up g car_num = (Inr (), g\<lparr>board := b'\<rparr>)
            \<and> length b' = n \<and> (\<forall>row \<in> set b'. length row = w)
            \<and> (\<forall>r<n. \<forall>k<w. b' ! r ! k =
                 (if sj \<le> int k \<and> int k \<le> ej \<and> int r = i - 1 then H
                  else if sj \<le> int k \<and> int k \<le> ej \<and> int r = i then Empty
                  else board g ! r ! k))"
      using shape rect_rows [OF shape] cells by (intro exI [where x = b']) (simp add: rect_def)
  }
  {
    assume down: "i + 1 < int n"
    have lo: "- int n \<le> i + 1" using assms(5) by simp
    have m: "(i + 1) mod int n = i + 1" using down assms(5) by (simp add: mod_pos_pos_trivial)
    obtain b' where run: "move_down_board c (board g) = (Inr (), b')"
      and shape: "rect n w b'"
      and cells: "\<forall>r<n. \<forall>k<w. b' ! r ! k =
                 (if sj \<le> int k \<and> int k \<le> ej \<and> int r = i + 1 then H
                  else if sj \<le> int k \<and> int k \<le> ej \<and> int r = i then Empty
                  else board g ! r ! k)"
      using horizontal_shift [OF rect i0 assms(6) lo down assms(7,8), of H]
      unfolding move_down_board_horizontal [OF assms(2,3)] assms(4) im m by blast
    have "move_down g car_num = (Inr (), g\<lparr>board := b'\<rparr>)"
      using assms(1) run by (simp add: move_down_def)
    then show "\<exists>b'. move_down g car_num = (Inr (), g\<lparr>board := b'\<rparr>)
            \<and> length b' = n \<and> (\<forall>row \<in> set b'. length row = w)
            \<and> (\<forall>r<n. \<forall>k<w. b' ! r ! k =
                 (if sj \<le> int k \<and> int k \<le> ej \<and> int r = i + 1 then H
                  else if sj \<le> int k \<and> int k \<le> ej \<and> int r = i then Empty
                  else board g ! r ! k))"
      using shape rect_rows [OF shape] cells by (intro exI [where x = b']) (simp add: rect_def)
  }
qed

section \<open>The flood fill follows one straight run\<close>

declare dfs.simps [simp del]

lemma step_0 [simp]: "step ori p 0 = p"
  by (cases ori; cases p) simp_all

lemma step_step [simp]: "step ori (step ori p i) j = step ori p (i + j)"
  by (cases ori; cases p) simp_all

lemma step_eq_iff [simp]: "step ori p i = step ori p j \<longleftrightarrow> i = j"
  by (cases ori; cases p) simp_all

lemma step_eq_self [simp]: "step ori p i = p \<longleftrightarrow> i = 0"
  using step_eq_iff [of ori p i 0] by (simp del: step_eq_iff)

lemma load_cell_in:
  assumes "rect (nat d) (nat d) m" "cell_in d m (r, c) = Some x"
  shows "load m r c = Inr x"
proof -
  have rc: "0 \<le> r" "r < d" "0 \<le> c" "c < d" and x: "m ! nat r ! nat c = x"
    using assms(2) by (auto simp: cell_in_def split: if_splits)
  have "length m = nat d" using assms(1) by (simp add: rect_def)
  then have i: "py_index m r = Inr (nat r)" using rc by (simp add: py_index_def)
  have "length (m ! nat r) = nat d" using assms(1) rc by (simp add: rect_def)
  then have j: "py_index (m ! nat r) c = Inr (nat c)" using rc by (simp add: py_index_def)
  show ?thesis by (simp add: load_def i j x)
qed

lemma store_cell_in:
  assumes "rect (nat d) (nat d) m" "cell_in d m (r, c) = Some x"
  shows "store r c v m = (Inr (), put (nat r) (nat c) v m)"
proof -
  have rc: "0 \<le> r" "r < d" "0 \<le> c" "c < d"
    using assms(2) by (auto simp: cell_in_def split: if_splits)
  have "r mod int (nat d) = r" using rc by (simp add: mod_pos_pos_trivial)
  then show ?thesis using store_put [OF assms(1), of r c v] rc by simp
qed

lemma cell_in_put:
  assumes "rect (nat d) (nat d) m" "cell_in d m (r, c) = Some x"
  shows "cell_in d (put (nat r) (nat c) v m) q = (if q = (r, c) then Some v else cell_in d m q)"
proof (cases q)
  case (Pair r' c')
  have rc: "0 \<le> r" "r < d" "0 \<le> c" "c < d"
    using assms(2) by (auto simp: cell_in_def split: if_splits)
  show ?thesis
  proof (cases "(0 \<le> r' \<and> r' < d) \<and> (0 \<le> c' \<and> c' < d)")
    case True
    then have "nat r' < length m" "nat c' < length (m ! nat r')"
      using assms(1) by (simp_all add: rect_def)
    then have "put (nat r) (nat c) v m ! nat r' ! nat c' =
                 (if nat r' = nat r \<and> nat c' = nat c then v else m ! nat r' ! nat c')"
      by (rule put_nth)
    then show ?thesis using True rc Pair by (auto simp: cell_in_def)
  next
    case False
    then show ?thesis using rc Pair by (auto simp: cell_in_def)
  qed
qed

lemma dfs_skip:
  assumes "rect (nat d) (nat d) b" "rect (nat d) (nat d) vis"
    and "cell_in d vis p \<noteq> Some False \<or> cell_in d b p \<noteq> Some t"
  shows "dfs d b t ori (p # stack) vis parts = dfs d b t ori stack vis parts"
proof (cases p)
  case (Pair r c)
  show ?thesis
  proof (cases "(0 \<le> r \<and> r < d) \<and> (0 \<le> c \<and> c < d)")
    case False
    then show ?thesis unfolding Pair by (subst dfs.simps) simp
  next
    case True
    then have v: "cell_in d vis (r, c) = Some (vis ! nat r ! nat c)"
      and x: "cell_in d b (r, c) = Some (b ! nat r ! nat c)"
      by (simp_all add: cell_in_def)
    note lv = load_cell_in [OF assms(2) v] and lb = load_cell_in [OF assms(1) x]
    show ?thesis
      using assms(3) True unfolding Pair
      by (subst dfs.simps) (auto simp: lv lb v x)
  qed
qed

lemma dfs_mark:
  assumes "rect (nat d) (nat d) b" "rect (nat d) (nat d) vis"
    and "cell_in d vis (r, c) = Some False" "cell_in d b (r, c) = Some t"
  shows "dfs d b t ori ((r, c) # stack) vis parts =
           dfs d b t ori (step ori (r, c) (- 1) # step ori (r, c) 1 # stack)
             (put (nat r) (nat c) True vis) (parts @ [(r, c)])"
proof -
  have rc: "(0 \<le> r \<and> r < d) \<and> (0 \<le> c \<and> c < d)"
    using assms(3) by (auto simp: cell_in_def split: if_splits)
  note lv = load_cell_in [OF assms(2,3)] and lb = load_cell_in [OF assms(1,4)]
    and st = store_cell_in [OF assms(2,3), of True]
  show ?thesis
    by (subst dfs.simps) (cases ori; simp add: rc lv lb st)
qed


lemma map_upt_Suc_shift: "map f [0..<Suc k] = f 0 # map (\<lambda>i. f (Suc i)) [0..<k]"
  by (simp only: upt_conv_Cons [of 0 "Suc k"] map_Suc_upt [symmetric] zero_less_Suc
                 list.map map_map comp_def if_True)

lemma dfs_run:
  assumes "rect (nat d) (nat d) b" "rect (nat d) (nat d) vis"
    and "\<forall>i<k. cell_in d vis (step ori p (int i)) = Some False
              \<and> cell_in d b (step ori p (int i)) = Some t"
    and "cell_in d b (step ori p (int k)) \<noteq> Some t"
    and "cell_in d vis (step ori p (- 1)) \<noteq> Some False
           \<or> cell_in d b (step ori p (- 1)) \<noteq> Some t"
  shows "\<exists>vis'. dfs d b t ori (p # stack) vis parts =
                   dfs d b t ori stack vis' (parts @ map (\<lambda>i. step ori p (int i)) [0..<k])
              \<and> rect (nat d) (nat d) vis'
              \<and> (\<forall>q. cell_in d vis' q =
                    (if q \<in> (\<lambda>i. step ori p (int i)) ` {..<k} then Some True
                     else cell_in d vis q))"
  using assms(2-5)
proof (induction k arbitrary: p vis parts)
  case 0
  have "dfs d b t ori (p # stack) vis parts = dfs d b t ori stack vis parts"
    using assms(1) "0.prems"(1,3) by (intro dfs_skip) simp_all
  then show ?case using "0.prems"(1) by (intro exI [where x = vis]) simp
next
  case (Suc k)
  obtain r c where p: "p = (r, c)" by (cases p)
  let ?vis1 = "put (nat r) (nat c) True vis"
  have here: "cell_in d vis (r, c) = Some False" "cell_in d b (r, c) = Some t"
    using Suc.prems(2) [rule_format, of 0] by (simp_all add: p)
  have r1: "rect (nat d) (nat d) ?vis1" using Suc.prems(1) by (rule rect_put)
  have c1: "cell_in d ?vis1 q = (if q = p then Some True else cell_in d vis q)" for q
    unfolding p by (rule cell_in_put [OF Suc.prems(1) here(1)])
  have mark: "dfs d b t ori (p # stack) vis parts =
                dfs d b t ori (step ori p (- 1) # step ori p 1 # stack) ?vis1 (parts @ [p])"
    unfolding p by (rule dfs_mark [OF assms(1) Suc.prems(1) here])
  have skipb: "dfs d b t ori (step ori p (- 1) # step ori p 1 # stack) ?vis1 (parts @ [p]) =
                dfs d b t ori (step ori p 1 # stack) ?vis1 (parts @ [p])"
    using Suc.prems(4) by (intro dfs_skip [OF assms(1) r1]) (simp add: c1)
  have cellsk: "\<forall>i<k. cell_in d ?vis1 (step ori (step ori p 1) (int i)) = Some False
                     \<and> cell_in d b (step ori (step ori p 1) (int i)) = Some t"
  proof (intro allI impI)
    fix i assume "i < k"
    then have "cell_in d vis (step ori p (int (Suc i))) = Some False
             \<and> cell_in d b (step ori p (int (Suc i))) = Some t"
      using Suc.prems(2) [rule_format, of "Suc i"] by simp
    then show "cell_in d ?vis1 (step ori (step ori p 1) (int i)) = Some False
             \<and> cell_in d b (step ori (step ori p 1) (int i)) = Some t"
      by (simp add: c1 add.commute)
  qed
  have stop: "cell_in d b (step ori (step ori p 1) (int k)) \<noteq> Some t"
    using Suc.prems(3) by (simp add: add.commute)
  have pred: "cell_in d ?vis1 (step ori (step ori p 1) (- 1)) \<noteq> Some False
                \<or> cell_in d b (step ori (step ori p 1) (- 1)) \<noteq> Some t"
    by (simp add: c1)
  obtain vis' where run: "dfs d b t ori (step ori p 1 # stack) ?vis1 (parts @ [p]) =
        dfs d b t ori stack vis'
          ((parts @ [p]) @ map (\<lambda>i. step ori (step ori p 1) (int i)) [0..<k])"
    and r': "rect (nat d) (nat d) vis'"
    and c': "\<forall>q. cell_in d vis' q =
               (if q \<in> (\<lambda>i. step ori (step ori p 1) (int i)) ` {..<k} then Some True
                else cell_in d ?vis1 q)"
    using Suc.IH [OF r1 cellsk stop pred] by blast
  have parts: "(parts @ [p]) @ map (\<lambda>i. step ori (step ori p 1) (int i)) [0..<k] =
                 parts @ map (\<lambda>i. step ori p (int i)) [0..<Suc k]"
  proof -
    have "map (\<lambda>i. step ori p (int i)) [0..<Suc k] =
            step ori p (int 0) # map (\<lambda>i. step ori p (int (Suc i))) [0..<k]"
      by (rule map_upt_Suc_shift)
    also have "\<dots> = p # map (\<lambda>i. step ori (step ori p 1) (int i)) [0..<k]"
      by (simp add: add.commute)
    finally have e: "map (\<lambda>i. step ori p (int i)) [0..<Suc k] =
                       p # map (\<lambda>i. step ori (step ori p 1) (int i)) [0..<k]" .
    show ?thesis unfolding e by simp
  qed
  have img: "q \<in> (\<lambda>i. step ori p (int i)) ` {..<Suc k} \<longleftrightarrow>
               q = p \<or> q \<in> (\<lambda>i. step ori (step ori p 1) (int i)) ` {..<k}" for q
  proof
    assume "q \<in> (\<lambda>i. step ori p (int i)) ` {..<Suc k}"
    then obtain i where i: "i < Suc k" "q = step ori p (int i)" by auto
    show "q = p \<or> q \<in> (\<lambda>i. step ori (step ori p 1) (int i)) ` {..<k}"
    proof (cases i)
      case 0
      then show ?thesis using i by simp
    next
      case (Suc j)
      then have "j < k" "q = step ori (step ori p 1) (int j)"
        using i by (simp_all add: add.commute)
      then show ?thesis by blast
    qed
  next
    assume "q = p \<or> q \<in> (\<lambda>i. step ori (step ori p 1) (int i)) ` {..<k}"
    then show "q \<in> (\<lambda>i. step ori p (int i)) ` {..<Suc k}"
    proof
      assume "q = p"
      then have "q = step ori p (int 0)" by simp
      then show ?thesis by (intro image_eqI [where x = 0]) simp_all
    next
      assume "q \<in> (\<lambda>i. step ori (step ori p 1) (int i)) ` {..<k}"
      then obtain j where "j < k" "q = step ori (step ori p 1) (int j)" by auto
      then have "q = step ori p (int (Suc j))" "Suc j < Suc k" by (simp_all add: add.commute)
      then show ?thesis by (intro image_eqI [where x = "Suc j"]) simp_all
    qed
  qed
  have "\<forall>q. cell_in d vis' q =
          (if q \<in> (\<lambda>i. step ori p (int i)) ` {..<Suc k} then Some True else cell_in d vis q)"
    using c' c1 img by auto
  then show ?case
    using mark skipb run r' unfolding parts by (intro exI [where x = vis']) simp
qed


lemma takeWhile_upt_holds:
  assumes "i < length (takeWhile P [0..<n])"
  shows "P i"
proof -
  have le: "length (takeWhile P [0..<n]) \<le> n"
    using length_takeWhile_le [of P "[0..<n]"] by simp
  have "takeWhile P [0..<n] ! i = [0..<n] ! i" using assms by (rule takeWhile_nth)
  then have "takeWhile P [0..<n] ! i = i" using assms le by simp
  moreover have "takeWhile P [0..<n] ! i \<in> set (takeWhile P [0..<n])"
    using assms by (rule nth_mem)
  ultimately show ?thesis using set_takeWhileD [of i P "[0..<n]"] by simp
qed

lemma takeWhile_upt_stops:
  assumes "length (takeWhile P [0..<n]) < n"
  shows "\<not> P (length (takeWhile P [0..<n]))"
  using nth_length_takeWhile [of P "[0..<n]"] assms by simp

lemma run_length_le: "run_length d b t p \<le> nat d"
  unfolding run_length_def
  using length_takeWhile_le [of _ "[0..<nat d]"] by simp

lemma run_length_cells:
  "i < run_length d b t p \<Longrightarrow> cell_in d b (step (ori_of t) p (int i)) = Some t"
  unfolding run_length_def by (rule takeWhile_upt_holds)

lemma cell_in_bounds:
  "cell_in d m (r, c) = Some x \<Longrightarrow> 0 \<le> r \<and> r < d \<and> 0 \<le> c \<and> c < d"
  by (auto simp: cell_in_def split: if_splits)

lemma run_length_stop:
  assumes "cell_in d b p = Some x"
  shows "cell_in d b (step (ori_of t) p (int (run_length d b t p))) \<noteq> Some t"
proof (cases "run_length d b t p < nat d")
  case True
  then show ?thesis
    unfolding run_length_def by (rule takeWhile_upt_stops)
next
  case False
  then have k: "run_length d b t p = nat d" using run_length_le [of d b t p] by simp
  obtain r c where p: "p = (r, c)" by (cases p)
  have "0 \<le> r \<and> r < d \<and> 0 \<le> c \<and> c < d" using assms unfolding p by (rule cell_in_bounds)
  then have "cell_in d b (step (ori_of t) p (int (nat d))) = None"
    unfolding p by (cases "ori_of t") (simp_all add: cell_in_def)
  then show ?thesis by (simp add: k)
qed

lemma run_length_pos:
  assumes "cell_in d b p = Some t"
  shows "0 < run_length d b t p"
proof -
  obtain r c where p: "p = (r, c)" by (cases p)
  have "0 \<le> r \<and> r < d \<and> 0 \<le> c \<and> c < d" using assms unfolding p by (rule cell_in_bounds)
  then have "0 < nat d" by simp
  then have "[0..<nat d] = 0 # [Suc 0..<nat d]" by (simp add: upt_conv_Cons)
  then show ?thesis using assms by (simp add: run_length_def)
qed

lemma fold_min_is:
  "m \<in> set (a # xs) \<Longrightarrow> \<forall>x \<in> set (a # xs). m \<le> x \<Longrightarrow> fold min xs a = (m::int)"
proof (induction xs arbitrary: a)
  case Nil
  then show ?case by simp
next
  case (Cons y ys)
  have "m \<in> set (min y a # ys)" using Cons.prems by (auto simp: min_def)
  moreover have "\<forall>x \<in> set (min y a # ys). m \<le> x" using Cons.prems by (auto simp: min_def)
  ultimately show ?case using Cons.IH [of "min y a"] by simp
qed

lemma fold_max_is:
  "m \<in> set (a # xs) \<Longrightarrow> \<forall>x \<in> set (a # xs). x \<le> m \<Longrightarrow> fold max xs a = (m::int)"
proof (induction xs arbitrary: a)
  case Nil
  then show ?case by simp
next
  case (Cons y ys)
  have "m \<in> set (max y a # ys)" using Cons.prems by (auto simp: max_def)
  moreover have "\<forall>x \<in> set (max y a # ys). x \<le> m" using Cons.prems by (auto simp: max_def)
  ultimately show ?case using Cons.IH [of "max y a"] by simp
qed

lemma bounding_box:
  assumes "ps = map (\<lambda>i. step ori p (int (Suc i))) [0..<n]"
  shows "(py_min (fst p) (map fst ps), py_min (snd p) (map snd ps)) = p"
    and "(py_max (fst p) (map fst ps), py_max (snd p) (map snd ps)) = step ori p (int n)"
proof -
  obtain r c where p: "p = (r, c)" by (cases p)
  have last_in: "a + int n \<in> set (a # map (\<lambda>i. a + int (Suc i)) [0..<n])" for a :: int
  proof (cases n)
    case 0
    then show ?thesis by simp
  next
    case (Suc m)
    then have "m < n" "a + int n = a + int (Suc m)" by auto
    then have "a + int n \<in> (\<lambda>i. a + int (Suc i)) ` set [0..<n]"
      by (intro image_eqI [where x = m]) simp_all
    then show ?thesis by simp
  qed
  have grow_min: "fold min (map (\<lambda>i. a + int (Suc i)) [0..<n]) a = a" for a :: int
    by (rule fold_min_is) auto
  have grow_max: "fold max (map (\<lambda>i. a + int (Suc i)) [0..<n]) a = a + int n" for a :: int
    using last_in [of a] by (intro fold_max_is) auto
  have same_min: "fold min (map (\<lambda>i. a) [0..<n]) a = a" for a :: int
    by (rule fold_min_is) auto
  have same_max: "fold max (map (\<lambda>i. a) [0..<n]) a = a" for a :: int
    by (rule fold_max_is) auto
  show "(py_min (fst p) (map fst ps), py_min (snd p) (map snd ps)) = p"
    unfolding p assms py_min_def
    by (cases ori) (simp_all add: comp_def grow_min same_min del: of_nat_Suc)
  show "(py_max (fst p) (map fst ps), py_max (snd p) (map snd ps)) = step ori p (int n)"
    unfolding p assms py_max_def
    by (cases ori) (simp_all add: comp_def grow_max same_max del: of_nat_Suc)
qed

lemma scan_invI:
  assumes "rect (nat d) (nat d) vis"
    and "\<And>q t. cell_in d vis q = Some True \<Longrightarrow> cell_in d b q = Some t \<Longrightarrow>
               cell_in d b (step (ori_of t) q (- 1)) = Some t \<Longrightarrow>
               cell_in d vis (step (ori_of t) q (- 1)) = Some True"
    and "\<And>q t. cell_in d vis q = Some True \<Longrightarrow> cell_in d b q = Some t \<Longrightarrow>
               cell_in d b (step (ori_of t) q 1) = Some t \<Longrightarrow>
               cell_in d vis (step (ori_of t) q 1) = Some True"
    and "\<And>q t. q \<in> set ds \<Longrightarrow> cell_in d b q = Some t \<Longrightarrow> t \<noteq> Empty \<Longrightarrow>
               cell_in d vis q = Some True"
    and "\<And>q. cell_in d vis q = Some True \<Longrightarrow> q \<notin> set ds \<Longrightarrow> run_at d b q = []"
  shows "scan_inv d b ds vis"
  unfolding scan_inv_def using assms by blast

lemma scan_inv_rect: "scan_inv d b ds vis \<Longrightarrow> rect (nat d) (nat d) vis"
  by (simp add: scan_inv_def)

lemma scan_inv_up:
  "scan_inv d b ds vis \<Longrightarrow> cell_in d vis q = Some True \<Longrightarrow> cell_in d b q = Some t \<Longrightarrow>
   cell_in d b (step (ori_of t) q (- 1)) = Some t \<Longrightarrow>
   cell_in d vis (step (ori_of t) q (- 1)) = Some True"
  unfolding scan_inv_def by blast

lemma scan_inv_down:
  "scan_inv d b ds vis \<Longrightarrow> cell_in d vis q = Some True \<Longrightarrow> cell_in d b q = Some t \<Longrightarrow>
   cell_in d b (step (ori_of t) q 1) = Some t \<Longrightarrow>
   cell_in d vis (step (ori_of t) q 1) = Some True"
  unfolding scan_inv_def by blast

lemma scan_inv_seen:
  "scan_inv d b ds vis \<Longrightarrow> q \<in> set ds \<Longrightarrow> cell_in d b q = Some t \<Longrightarrow> t \<noteq> Empty \<Longrightarrow>
   cell_in d vis q = Some True"
  unfolding scan_inv_def by blast

lemma scan_inv_later:
  "scan_inv d b ds vis \<Longrightarrow> cell_in d vis q = Some True \<Longrightarrow> q \<notin> set ds \<Longrightarrow> run_at d b q = []"
  unfolding scan_inv_def by blast

lemma cell_in_same_bounds:
  "cell_in d m q = Some x \<Longrightarrow> \<exists>y. cell_in d m' q = Some y"
  by (cases q) (auto simp: cell_in_def split: if_splits)

lemma scan_inv_append_unchanged:
  assumes "scan_inv d b ds vis"
    and "\<And>t. cell_in d b p = Some t \<Longrightarrow> t \<noteq> Empty \<Longrightarrow> cell_in d vis p = Some True"
  shows "scan_inv d b (ds @ [p]) vis"
proof (rule scan_invI)
  show "rect (nat d) (nat d) vis" using assms(1) by (rule scan_inv_rect)
next
  fix q t
  assume "cell_in d vis q = Some True" "cell_in d b q = Some t"
    "cell_in d b (step (ori_of t) q (- 1)) = Some t"
  then show "cell_in d vis (step (ori_of t) q (- 1)) = Some True"
    by (rule scan_inv_up [OF assms(1)])
next
  fix q t
  assume "cell_in d vis q = Some True" "cell_in d b q = Some t"
    "cell_in d b (step (ori_of t) q 1) = Some t"
  then show "cell_in d vis (step (ori_of t) q 1) = Some True"
    by (rule scan_inv_down [OF assms(1)])
next
  fix q t
  assume q: "q \<in> set (ds @ [p])" "cell_in d b q = Some t" "t \<noteq> Empty"
  show "cell_in d vis q = Some True"
  proof (cases "q = p")
    case True
    then show ?thesis using q assms(2) by simp
  next
    case False
    then have "q \<in> set ds" using q(1) by simp
    then show ?thesis using q(2,3) by (rule scan_inv_seen [OF assms(1)])
  qed
next
  fix q
  assume "cell_in d vis q = Some True" "q \<notin> set (ds @ [p])"
  then show "run_at d b q = []" using scan_inv_later [OF assms(1), of q] by simp
qed


lemma scan_cell_step:
  assumes b: "rect (nat d) (nat d) b" and inv: "scan_inv d b ds vis"
    and x: "cell_in d b (r, c) = Some x" and new: "(r, c) \<notin> set ds"
    and prev: "\<And>ori y. cell_in d b (step ori (r, c) (- 1)) = Some y \<Longrightarrow>
                 step ori (r, c) (- 1) \<in> set ds"
  shows "\<exists>vis'. scan_cell d b r c (vis, cs) = (Inr (), vis', cs @ run_at d b (r, c))
              \<and> scan_inv d b (ds @ [(r, c)]) vis'"
proof -
  let ?p = "(r, c)"
  note rv = scan_inv_rect [OF inv]
  have lb: "load b r c = Inr x" using b x by (rule load_cell_in)
  obtain v where v: "cell_in d vis ?p = Some v" using cell_in_same_bounds [OF x, of vis] by blast
  have lv: "load vis r c = Inr v" using rv v by (rule load_cell_in)
  show ?thesis
  proof (cases "x = Empty \<or> v")
    case True
    have run: "scan_cell d b r c (vis, cs) = (Inr (), vis, cs)"
      using True by (auto simp: scan_cell_def lb lv)
    have none: "run_at d b ?p = []"
    proof (cases "x = Empty")
      case True
      then show ?thesis using x by (simp add: run_at_def)
    next
      case False
      then have "cell_in d vis ?p = Some True" using True v by simp
      then show ?thesis using new by (rule scan_inv_later [OF inv])
    qed
    have "scan_inv d b (ds @ [?p]) vis"
      using inv
    proof (rule scan_inv_append_unchanged)
      fix t assume "cell_in d b ?p = Some t" "t \<noteq> Empty"
      then show "cell_in d vis ?p = Some True" using True v x by simp
    qed
    then show ?thesis using run none by (intro exI [where x = vis]) simp
  next
    case False
    then have occ: "x \<noteq> Empty" and fresh: "cell_in d vis ?p = Some False" using v by simp_all
    let ?ori = "ori_of x"
    let ?k = "run_length d b x ?p"
    have head: "cell_in d b (step ?ori ?p (- 1)) \<noteq> Some x"
    proof
      assume a: "cell_in d b (step ?ori ?p (- 1)) = Some x"
      then have "step ?ori ?p (- 1) \<in> set ds" by (rule prev)
      then have "cell_in d vis (step ?ori ?p (- 1)) = Some True"
        using a occ by (rule scan_inv_seen [OF inv])
      moreover have "cell_in d b (step ?ori (step ?ori ?p (- 1)) 1) = Some x" using x by simp
      ultimately have "cell_in d vis (step ?ori (step ?ori ?p (- 1)) 1) = Some True"
        using a by (intro scan_inv_down [OF inv]) simp_all
      then show False using fresh by simp
    qed
    have typed: "cell_in d b (step ?ori ?p (int i)) = Some x" if "i < ?k" for i
      using that by (rule run_length_cells)
    have unseen: "i < ?k \<Longrightarrow> cell_in d vis (step ?ori ?p (int i)) = Some False" for i
    proof (induction i)
      case 0
      then show ?case using fresh by simp
    next
      case (Suc i)
      then have below: "cell_in d vis (step ?ori ?p (int i)) = Some False" by simp
      have here: "cell_in d b (step ?ori ?p (int (Suc i))) = Some x"
        using Suc.prems by (rule typed)
      obtain u where u: "cell_in d vis (step ?ori ?p (int (Suc i))) = Some u"
        using cell_in_same_bounds [OF here, of vis] by blast
      have "\<not> u"
      proof
        assume u
        then have "cell_in d vis (step ?ori ?p (int (Suc i))) = Some True" using u by simp
        moreover have "cell_in d b (step ?ori (step ?ori ?p (int (Suc i))) (- 1)) = Some x"
          using typed [of i] Suc.prems by simp
        ultimately have "cell_in d vis (step ?ori (step ?ori ?p (int (Suc i))) (- 1)) = Some True"
          using here by (intro scan_inv_up [OF inv]) simp_all
        then show False using below by simp
      qed
      then show ?case using u by simp
    qed
    have cells_ok: "\<forall>i<?k. cell_in d vis (step ?ori ?p (int i)) = Some False
                         \<and> cell_in d b (step ?ori ?p (int i)) = Some x"
      using typed unseen by blast
    have stop: "cell_in d b (step ?ori ?p (int ?k)) \<noteq> Some x"
      using x by (rule run_length_stop)
    have pred: "cell_in d vis (step ?ori ?p (- 1)) \<noteq> Some False
                  \<or> cell_in d b (step ?ori ?p (- 1)) \<noteq> Some x"
      using head by simp
    obtain vis' where run: "dfs d b x ?ori [?p] vis [] =
          dfs d b x ?ori [] vis' ([] @ map (\<lambda>i. step ?ori ?p (int i)) [0..<?k])"
      and rv': "rect (nat d) (nat d) vis'"
      and cv': "\<forall>q. cell_in d vis' q =
               (if q \<in> (\<lambda>i. step ?ori ?p (int i)) ` {..<?k} then Some True
                else cell_in d vis q)"
      using dfs_run [OF b rv cells_ok stop pred, of "[]" "[]"] by blast
    have kpos: "0 < ?k" using x by (rule run_length_pos)
    then obtain n where n: "?k = Suc n" by (cases ?k) simp_all
    let ?ps = "map (\<lambda>i. step ?ori ?p (int (Suc i))) [0..<n]"
    have parts: "map (\<lambda>i. step ?ori ?p (int i)) [0..<?k] = ?p # ?ps"
      unfolding n using map_upt_Suc_shift [of "\<lambda>i. step ?ori ?p (int i)" n] by simp
    have dfs_res: "dfs d b x ?ori [?p] vis [] = (Inr (), vis', ?p # ?ps)"
      using run unfolding parts by (simp add: dfs.simps(1))
    have box: "(py_min (fst ?p) (map fst ?ps), py_min (snd ?p) (map snd ?ps)) = ?p"
      "(py_max (fst ?p) (map fst ?ps), py_max (snd ?p) (map snd ?ps)) = step ?ori ?p (int n)"
      by (rule bounding_box [OF refl])+
    have car: "run_at d b ?p = [Car ?p (step ?ori ?p (int n)) ?ori]"
      using x occ head n by (simp add: run_at_def)
    have "scan_cell d b r c (vis, cs) =
            (case dfs d b x (if x = H then Horizontal else Vertical) [?p] vis [] of
               (Inl e, visited', car_parts) \<Rightarrow> (Inl e, visited', cs)
             | (Inr u, visited', car_parts) \<Rightarrow>
                 (case car_parts of
                    [] \<Rightarrow> (Inr (), visited', cs)
                  | p # ps \<Rightarrow>
                      (Inr (), visited',
                       cs @ [Car (py_min (fst p) (map fst ps), py_min (snd p) (map snd ps))
                                 (py_max (fst p) (map fst ps), py_max (snd p) (map snd ps))
                                 (if x = H then Horizontal else Vertical)])))"
      using occ False by (simp add: scan_cell_def lb lv Let_def)
    then have res: "scan_cell d b r c (vis, cs) = (Inr (), vis', cs @ run_at d b ?p)"
      unfolding ori_of_def [symmetric] dfs_res car using box by simp
    let ?R = "(\<lambda>i. step ?ori ?p (int i)) ` {..<?k}"
    have cv: "cell_in d vis' q = (if q \<in> ?R then Some True else cell_in d vis q)" for q
      using cv' by blast
    have mono: "cell_in d vis q = Some True \<Longrightarrow> cell_in d vis' q = Some True" for q
      by (simp add: cv)
    have pR: "?p \<in> ?R" using kpos by (intro image_eqI [where x = 0]) simp_all
    have inR: "cell_in d b q = Some x" if "q \<in> ?R" for q
      using that typed by auto
    have inv': "scan_inv d b (ds @ [?p]) vis'"
    proof (rule scan_invI)
      show "rect (nat d) (nat d) vis'" by (rule rv')
    next
      fix q t
      assume q: "cell_in d vis' q = Some True" "cell_in d b q = Some t"
        "cell_in d b (step (ori_of t) q (- 1)) = Some t"
      show "cell_in d vis' (step (ori_of t) q (- 1)) = Some True"
      proof (cases "q \<in> ?R")
        case True
        then obtain i where i: "i < ?k" "q = step ?ori ?p (int i)" by auto
        have t: "t = x" using inR [OF True] q(2) by simp
        have "i \<noteq> 0"
        proof
          assume "i = 0"
          then have "q = ?p" using i(2) by simp
          then have "cell_in d b (step ?ori ?p (- 1)) = Some x" using q(3) t by simp
          then show False using head by simp
        qed
        then obtain j where j: "i = Suc j" by (cases i) simp_all
        have "step (ori_of t) q (- 1) = step ?ori ?p (int j)" unfolding t i(2) j by simp
        moreover have "j < ?k" using i(1) j by simp
        ultimately have "step (ori_of t) q (- 1) \<in> ?R" by (intro image_eqI [where x = j]) simp_all
        then show ?thesis by (simp add: cv)
      next
        case False
        then have "cell_in d vis q = Some True" using q(1) by (simp add: cv)
        then have "cell_in d vis (step (ori_of t) q (- 1)) = Some True"
          using q(2,3) by (rule scan_inv_up [OF inv])
        then show ?thesis by (rule mono)
      qed
    next
      fix q t
      assume q: "cell_in d vis' q = Some True" "cell_in d b q = Some t"
        "cell_in d b (step (ori_of t) q 1) = Some t"
      show "cell_in d vis' (step (ori_of t) q 1) = Some True"
      proof (cases "q \<in> ?R")
        case True
        then obtain i where i: "i < ?k" "q = step ?ori ?p (int i)" by auto
        have t: "t = x" using inR [OF True] q(2) by simp
        have nxt: "step (ori_of t) q 1 = step ?ori ?p (int (Suc i))" unfolding t i(2) by simp
        have "Suc i \<noteq> ?k"
        proof
          assume e: "Suc i = ?k"
          have "cell_in d b (step ?ori ?p (int (Suc i))) = Some x"
            using q(3) nxt t by simp
          then have "cell_in d b (step ?ori ?p (int ?k)) = Some x"
            unfolding e .
          then show False using stop by simp
        qed
        then have "Suc i < ?k" using i(1) by simp
        then have "step (ori_of t) q 1 \<in> ?R"
          unfolding nxt by (intro image_eqI [where x = "Suc i"]) simp_all
        then show ?thesis by (simp add: cv)
      next
        case False
        then have "cell_in d vis q = Some True" using q(1) by (simp add: cv)
        then have "cell_in d vis (step (ori_of t) q 1) = Some True"
          using q(2,3) by (rule scan_inv_down [OF inv])
        then show ?thesis by (rule mono)
      qed
    next
      fix q t
      assume q: "q \<in> set (ds @ [?p])" "cell_in d b q = Some t" "t \<noteq> Empty"
      show "cell_in d vis' q = Some True"
      proof (cases "q = ?p")
        case True
        then show ?thesis using pR by (simp add: cv)
      next
        case False
        then have "q \<in> set ds" using q(1) by simp
        then have "cell_in d vis q = Some True" using q(2,3) by (rule scan_inv_seen [OF inv])
        then show ?thesis by (rule mono)
      qed
    next
      fix q
      assume q: "cell_in d vis' q = Some True" "q \<notin> set (ds @ [?p])"
      show "run_at d b q = []"
      proof (cases "q \<in> ?R")
        case True
        then obtain i where i: "i < ?k" "q = step ?ori ?p (int i)" by auto
        have "i \<noteq> 0"
        proof
          assume "i = 0"
          then have "q = ?p" using i(2) by simp
          then show False using q(2) by simp
        qed
        then obtain j where j: "i = Suc j" by (cases i) simp_all
        have "step ?ori q (- 1) = step ?ori ?p (int j)" unfolding i(2) j by simp
        moreover have "cell_in d b (step ?ori ?p (int j)) = Some x"
          using i(1) j by (intro typed) simp
        ultimately have "cell_in d b (step ?ori q (- 1)) = Some x" by simp
        then show ?thesis using inR [OF True] by (simp add: run_at_def)
      next
        case False
        then have "cell_in d vis q = Some True" using q(1) by (simp add: cv)
        moreover have "q \<notin> set ds" using q(2) by simp
        ultimately show ?thesis by (rule scan_inv_later [OF inv])
      qed
    qed
    show ?thesis using res inv' by blast
  qed
qed

lemma for_each_append:
  "for_each (xs @ ys) body s =
     (case for_each xs body s of (Inl e, s') \<Rightarrow> (Inl e, s') | (Inr u, s') \<Rightarrow> for_each ys body s')"
  by (induction xs arbitrary: s) (auto split: prod.splits sum.splits)

lemma for_each_map: "for_each (map g xs) body s = for_each xs (\<lambda>x. body (g x)) s"
  by (induction xs arbitrary: s) (auto split: prod.splits sum.splits)

lemma for_each_nested:
  "for_each rs (\<lambda>r. for_each cs (\<lambda>c. f r c)) s =
     for_each (concat (map (\<lambda>r. map (Pair r) cs) rs)) (\<lambda>(r, c). f r c) s"
  by (induction rs arbitrary: s)
     (auto simp: for_each_append for_each_map split: prod.splits sum.splits)

lemma sorted_wrt_cells:
  assumes "sorted_wrt (<) rs" "sorted_wrt (<) cs"
  shows "sorted_wrt before (concat (map (\<lambda>r. map (Pair r) cs) rs))"
  using assms(1)
proof (induction rs)
  case Nil
  then show ?case by simp
next
  case (Cons r rs)
  have row: "sorted_wrt before (map (Pair r) cs)"
    using assms(2) by (simp add: sorted_wrt_map before_def)
  have "before x y" if "x \<in> set (map (Pair r) cs)"
    "y \<in> set (concat (map (\<lambda>r. map (Pair r) cs) rs))" for x y
    using that Cons.prems by (auto simp: before_def)
  then show ?case using Cons row by (simp add: sorted_wrt_append)
qed

lemma sorted_cells: "sorted_wrt before (cells d)"
  unfolding cells_def py_range_def
  by (intro sorted_wrt_cells) (simp_all add: strict_sorted_iff)

lemma set_cells: "p \<in> set (cells d) \<longleftrightarrow> (\<exists>x. cell_in d (m :: 'a list list) p = Some x)"
proof (cases p)
  case (Pair r c)
  have "(r, c) \<in> set (cells d) \<longleftrightarrow> (0 \<le> r \<and> r < d) \<and> (0 \<le> c \<and> c < d)"
    by (auto simp: cells_def py_range_def image_iff)
  then show ?thesis unfolding Pair by (simp add: cell_in_def)
qed

lemma before_step: "before (step ori p (- 1)) p"
  by (cases ori; cases p) (simp_all add: before_def)

lemma before_asym: "before p q \<Longrightarrow> \<not> before q p"
  by (auto simp: before_def)

lemma scan_loop:
  assumes b: "rect (nat d) (nat d) b" and split: "ds @ ps = cells d"
    and inv: "scan_inv d b ds vis"
  shows "\<exists>vis'. for_each ps (\<lambda>(r, c). scan_cell d b r c) (vis, cs) =
                  (Inr (), vis', cs @ concat (map (run_at d b) ps))
              \<and> scan_inv d b (ds @ ps) vis'"
  using split inv
proof (induction ps arbitrary: ds vis cs)
  case Nil
  then show ?case by simp
next
  case (Cons p ps)
  obtain r c where p: "p = (r, c)" by (cases p)
  have sorted: "sorted_wrt before (ds @ p # ps)" using Cons.prems(1) sorted_cells by simp
  have "p \<in> set (cells d)" using Cons.prems(1) [symmetric] by simp
  then obtain x where x: "cell_in d b (r, c) = Some x" using set_cells [of p d b] p by auto
  have new: "(r, c) \<notin> set ds"
  proof
    assume "(r, c) \<in> set ds"
    then have "before p p" using sorted p by (simp add: sorted_wrt_append)
    then show False by (simp add: before_def)
  qed
  have prev: "step ori (r, c) (- 1) \<in> set ds"
    if "cell_in d b (step ori (r, c) (- 1)) = Some y" for ori y
  proof -
    let ?q = "step ori p (- 1)"
    have "?q \<in> set (cells d)" using that set_cells [of ?q d b] p by auto
    then have "?q \<in> set ds \<or> ?q = p \<or> ?q \<in> set ps"
      using Cons.prems(1) [symmetric] by auto
    moreover have "?q \<noteq> p" by simp
    moreover have "?q \<notin> set ps"
    proof
      assume "?q \<in> set ps"
      then have "before p ?q" using sorted by (simp add: sorted_wrt_append)
      then show False using before_step [of ori p] before_asym by blast
    qed
    ultimately show ?thesis using p by simp
  qed
  have "\<exists>vis1. scan_cell d b r c (vis, cs) = (Inr (), vis1, cs @ run_at d b (r, c))
             \<and> scan_inv d b (ds @ [(r, c)]) vis1"
  proof (rule scan_cell_step [OF b Cons.prems(2) x new])
    fix ori y
    assume "cell_in d b (step ori (r, c) (- 1)) = Some y"
    then show "step ori (r, c) (- 1) \<in> set ds" by (rule prev)
  qed
  then obtain vis1 where one: "scan_cell d b r c (vis, cs) = (Inr (), vis1, cs @ run_at d b (r, c))"
    and inv1: "scan_inv d b (ds @ [(r, c)]) vis1"
    by blast
  have split1: "(ds @ [(r, c)]) @ ps = cells d" using Cons.prems(1) p by simp
  obtain vis' where rest: "for_each ps (\<lambda>(r, c). scan_cell d b r c) (vis1, cs @ run_at d b (r, c)) =
        (Inr (), vis', (cs @ run_at d b (r, c)) @ concat (map (run_at d b) ps))"
    and inv': "scan_inv d b ((ds @ [(r, c)]) @ ps) vis'"
    using Cons.IH [OF split1 inv1, of "cs @ run_at d b (r, c)"] by blast
  show ?case
    using one rest inv' unfolding p by (intro exI [where x = vis']) simp
qed

lemma scan_inv_init:
  "scan_inv d b [] (replicate (nat d) (replicate (nat d) False))"
proof -
  let ?v = "replicate (nat d) (replicate (nat d) False)"
  have no: "cell_in d ?v q \<noteq> Some True" for q
    by (cases q) (simp add: cell_in_def)
  show ?thesis
    by (rule scan_invI) (simp_all add: no rect_def)
qed

lemma scan_runs:
  assumes "rect (nat d) (nat d) b"
  shows "scan d b = (Inr (), runs d b)"
proof -
  let ?v = "replicate (nat d) (replicate (nat d) False)"
  obtain vis' where "for_each (cells d) (\<lambda>(r, c). scan_cell d b r c) (?v, []) =
      (Inr (), vis', [] @ concat (map (run_at d b) (cells d)))"
    using scan_loop [OF assms _ scan_inv_init, of "cells d" "[]"] by auto
  then show ?thesis
    by (simp add: scan_def for_each_nested cells_def [symmetric] runs_def)
qed

lemma car_length_step:
  "car_length (Car p (step ori p i) ori) = i + 1"
  by (cases ori; cases p) (simp_all add: Car_def calculate_length_def)

lemma runs_maximal:
  assumes "c \<in> set (runs d b)"
  shows "maximal_run d b c"
proof -
  obtain p where c: "c \<in> set (run_at d b p)" using assms by (auto simp: runs_def)
  then obtain t where t1: "cell_in d b p = Some t"
    by (cases "cell_in d b p") (simp_all add: run_at_def)
  have t: "cell_in d b p = Some t" "t \<noteq> Empty"
    "cell_in d b (step (ori_of t) p (- 1)) \<noteq> Some t"
    and car: "c = Car p (step (ori_of t) p (int (run_length d b t p) - 1)) (ori_of t)"
    using c t1 by (simp_all add: run_at_def split: if_splits)
  let ?k = "run_length d b t p"
  have pos: "0 < ?k" using t(1) by (rule run_length_pos)
  have sp: "start_pos c = p" and ep: "end_pos c = step (ori_of t) p (int ?k - 1)"
    and oc: "orientation c = ori_of t"
    unfolding car by (simp_all add: Car_def)
  have len: "car_length c = int ?k" unfolding car car_length_step by simp
  have inside: "\<forall>i<?k. cell_in d b (step (ori_of t) p (int i)) = Some t"
    using run_length_cells by blast
  have stop: "cell_in d b (step (ori_of t) p (int ?k)) \<noteq> Some t"
    using t(1) by (rule run_length_stop)
  show ?thesis
    unfolding maximal_run_def sp
    using t(2,3) oc pos ep [unfolded sp] len inside stop
    by (intro exI [where x = t] exI [where x = ?k]) simp
qed

section \<open>Claims\<close>

text \<open>
  C4. Scanning the 5 by 5 initial board yields exactly two cars, in this order: the
  vertical car from (1,2) to (2,2) of length 2, then the horizontal car from (4,3) to (4,4)
  of length 2.
\<close>

theorem find_cars_initial:
  "find_cars (Game 5) =
     (Inr (),
      \<lparr>board_dimension = 5, board = ESTADO_INICIAL,
       cars = [\<lparr>start_pos = (1, 2), end_pos = (2, 2), orientation = Vertical, car_length = 2\<rparr>,
               \<lparr>start_pos = (4, 3), end_pos = (4, 4), orientation = Horizontal, car_length = 2\<rparr>]\<rparr>)"
  by (simp add: find_cars_def Game_def scan_initial Car_def calculate_length_def)

text \<open>
  C9. Scanning twice in a row, with no change of the board in between, gives the same
  result and the same car collection as scanning once.
\<close>

theorem find_cars_twice: "find_cars (snd (find_cars g)) = find_cars g"
  by (simp add: find_cars_def split: prod.splits)

text \<open>
  C10. \<^verbatim>\<open>Game.move\<close> returns \<^verbatim>\<open>None\<close> and leaves the whole game, board and car collection,
  as it was, for every car index and every direction.
\<close>

theorem move_does_nothing: "move g car_idx dir = (Inr (), g)"
  by (simp add: move_def)

text \<open>
  C8. The move helpers write to the board only: whatever the outcome, the car collection
  after \<^verbatim>\<open>_move_up\<close> or \<^verbatim>\<open>_move_down\<close> is the one before, so it keeps the coordinates
  of before the move.
\<close>

theorem move_keeps_cars:
  "cars (snd (move_up g car_num)) = cars g \<and> cars (snd (move_down g car_num)) = cars g"
  by (simp add: move_up_def move_down_def split: sum.splits prod.splits)

text \<open>
  C7. The goal check is true exactly when both cells of the target region, row 2 and
  columns 3 and 4, carry the horizontal marker.
\<close>

theorem isSolved_iff:
  "isSolved g \<longleftrightarrow> load (board g) 2 3 = Inr H \<and> load (board g) 2 4 = Inr H"
  by (simp add: isSolved_def target_cells_objetivo load_objetivo)

text \<open>
  C6, as the claim states it, fails: car number 0 is outside the collection, and
  \<^verbatim>\<open>cars[0 - 1]\<close> is the last car, which is moved.
\<close>

theorem index_zero_moves_last_car:
  "length (cars (fresh ESTADO_INICIAL)) = 2 \<and>
   move_up (fresh ESTADO_INICIAL) 0 =
     (Inr (), (fresh ESTADO_INICIAL)\<lparr>board :=
        [[Empty, Empty, Empty, Empty, Empty],
         [Empty, Empty, V, Empty, Empty],
         [Empty, Empty, V, Empty, Empty],
         [Empty, Empty, Empty, H, H],
         [Empty, Empty, Empty, Empty, Empty]]\<rparr>)"
  unfolding fresh_initial by code_simp

text \<open>
  C6, amended. A car number whose index \<open>car_num - 1\<close> lies outside \<open>-len .. len - 1\<close>
  makes both move helpers raise \<^verbatim>\<open>IndexError\<close> before any write to the board.
\<close>

theorem bad_index_raises:
  assumes "int (length (cars g)) \<le> car_num - 1 \<or> car_num - 1 < - int (length (cars g))"
  shows "move_up g car_num = (Inl IndexError, g) \<and> move_down g car_num = (Inl IndexError, g)"
  using assms by (auto simp: move_up_def move_down_def py_get_def py_index_def Let_def)

theorem bad_index_raises_witness:
  "(int (length (cars (fresh ESTADO_INICIAL))) \<le> 3 - 1
     \<or> (3::int) - 1 < - int (length (cars (fresh ESTADO_INICIAL))))
   \<and> move_up (fresh ESTADO_INICIAL) 3 = (Inl IndexError, fresh ESTADO_INICIAL)
   \<and> move_down (fresh ESTADO_INICIAL) 3 = (Inl IndexError, fresh ESTADO_INICIAL)"
proof -
  have h: "int (length (cars (fresh ESTADO_INICIAL))) \<le> 3 - 1
     \<or> (3::int) - 1 < - int (length (cars (fresh ESTADO_INICIAL)))"
    by (simp add: fresh_initial)
  show ?thesis using h bad_index_raises [OF h] by simp
qed

text \<open>
  C1, as the claim states it, fails: the vertical car of the board below touches row 0, and
  moving it up is not rejected. The write to row \<open>-1\<close> lands in the last row.
\<close>

theorem move_up_at_row_0_wraps:
  "cars (fresh board_top) = [Car (0, 2) (1, 2) Vertical, Car (4, 3) (4, 4) Horizontal] \<and>
   move_up (fresh board_top) 1 =
     (Inr (), (fresh board_top)\<lparr>board :=
        [[Empty, Empty, V, Empty, Empty],
         [Empty, Empty, Empty, Empty, Empty],
         [Empty, Empty, Empty, Empty, Empty],
         [Empty, Empty, Empty, Empty, Empty],
         [Empty, Empty, V, H, H]]\<rparr>)"
  unfolding fresh_top by code_simp

text \<open>
  C1, amended. For a vertical car whose topmost cell is at row 0 of a rectangular board,
  with its last row \<open>e\<close> and its column \<open>j\<close> inside the board, \<^verbatim>\<open>_move_up\<close> raises nothing:
  it writes the marker to the rows above \<open>e\<close> of column \<open>j\<close> and, through the index
  \<open>-1\<close>, to the last row, empties row \<open>e\<close> unless it is the last row, and leaves every
  other cell as it was.
\<close>

theorem move_up_from_row_0:
  assumes "py_get (cars g) (car_num - 1) = Inr c"
    and "orientation c = Vertical" "start_pos c = (0, j)" "fst (end_pos c) = e"
    and "0 \<le> e" "e < int n" "0 \<le> j" "j < int w"
    and "length (board g) = n" "\<forall>row \<in> set (board g). length row = w"
  shows "\<exists>b'. move_up g car_num = (Inr (), g\<lparr>board := b'\<rparr>)
            \<and> length b' = n \<and> (\<forall>row \<in> set b'. length row = w)
            \<and> (\<forall>r<n. \<forall>k<w. b' ! r ! k =
                 (if int k = j \<and> (int r < e \<or> r = n - 1) then V
                  else if int k = j \<and> int r = e then Empty
                  else board g ! r ! k))"
proof -
  have rect: "rect n w (board g)" using assms(9,10) by (rule rect_board)
  have f: "\<forall>i \<in> {0..e}. - int n \<le> i - 1 \<and> i - 1 < int n" using assms(6) by auto
  obtain b' where run: "move_up_board c (board g) = (Inr (), b')"
    and shape: "rect n w b'"
    and cells: "\<forall>r<n. \<forall>k<w. b' ! r ! k =
                 (if int k = j \<and> (\<exists>i \<in> {0..e}. int r = (i - 1) mod int n) then V
                  else if int k = j \<and> 0 \<le> int r \<and> int r \<le> e then Empty
                  else board g ! r ! k)"
    using vertical_shift [OF rect assms(7,8) order_refl assms(6) f, of V]
    unfolding move_up_board_vertical [OF assms(2,3)] assms(4) by blast
  have "b' ! r ! k =
          (if int k = j \<and> (int r < e \<or> r = n - 1) then V
           else if int k = j \<and> int r = e then Empty
           else board g ! r ! k)" if "r < n" "k < w" for r k
    using cells that rows_up_wrap [OF assms(5,6) that(1)] by auto
  moreover have "move_up g car_num = (Inr (), g\<lparr>board := b'\<rparr>)"
    using assms(1) run by (simp add: move_up_def)
  ultimately show ?thesis
    using shape rect_rows [OF shape] by (intro exI [where x = b']) (simp add: rect_def)
qed

theorem move_up_from_row_0_witness:
  "py_get (cars (fresh board_top)) (1 - 1) = Inr (Car (0, 2) (1, 2) Vertical)
   \<and> orientation (Car (0, 2) (1, 2) Vertical) = Vertical
   \<and> start_pos (Car (0, 2) (1, 2) Vertical) = (0, 2)
   \<and> fst (end_pos (Car (0, 2) (1, 2) Vertical)) = 1
   \<and> (0::int) \<le> 1 \<and> (1::int) < int 5 \<and> (0::int) \<le> 2 \<and> (2::int) < int 5
   \<and> map length (board (fresh board_top)) = [5, 5, 5, 5, 5]
   \<and> fst (move_up (fresh board_top) 1) = Inr ()
   \<and> board (snd (move_up (fresh board_top) 1)) ! 4 ! 2 = V
   \<and> board (snd (move_up (fresh board_top) 1)) ! 0 ! 2 = V
   \<and> board (snd (move_up (fresh board_top) 1)) ! 1 ! 2 = Empty"
proof -
  have h1: "py_get (cars (fresh board_top)) (1 - 1) = Inr (Car (0, 2) (1, 2) Vertical)"
    by (simp add: fresh_top py_get_def py_index_def)
  have h2: "orientation (Car (0, 2) (1, 2) Vertical) = Vertical"
    and h3: "start_pos (Car (0, 2) (1, 2) Vertical) = (0, 2)"
    and h4: "fst (end_pos (Car (0, 2) (1, 2) Vertical)) = 1"
    by (simp_all add: Car_def)
  have h5: "(0::int) \<le> 1" and h6: "(1::int) < int 5"
    and h7: "(0::int) \<le> 2" and h8: "(2::int) < int 5" by simp_all
  have h9: "length (board (fresh board_top)) = 5"
    and h10: "\<forall>row \<in> set (board (fresh board_top)). length row = 5"
    and h11: "map length (board (fresh board_top)) = [5, 5, 5, 5, 5]"
    unfolding fresh_top by (simp_all add: board_top_def)
  obtain b' where run: "move_up (fresh board_top) 1 = (Inr (), (fresh board_top)\<lparr>board := b'\<rparr>)"
    and cells: "\<forall>r<5. \<forall>k<5. b' ! r ! k =
               (if int k = 2 \<and> (int r < 1 \<or> r = 5 - 1) then V
                else if int k = 2 \<and> int r = 1 then Empty
                else board (fresh board_top) ! r ! k)"
    using move_up_from_row_0 [OF h1 h2 h3 h4 h5 h6 h7 h8 h9 h10] by blast
  have "b' ! 4 ! 2 = V" "b' ! 0 ! 2 = V" "b' ! 1 ! 2 = Empty"
    using cells by simp_all
  then show ?thesis using h1 h2 h3 h4 h11 run by simp
qed

text \<open>
  C2, as the claim states it, fails: car 2 of the initial board is horizontal, and moving
  it up is not rejected. The car goes from row 4 to row 3, as in the example run of the
  source.
\<close>

theorem horizontal_car_moves_up:
  "cars (fresh ESTADO_INICIAL) = [Car (1, 2) (2, 2) Vertical, Car (4, 3) (4, 4) Horizontal] \<and>
   move_up (fresh ESTADO_INICIAL) 2 =
     (Inr (), (fresh ESTADO_INICIAL)\<lparr>board :=
        [[Empty, Empty, Empty, Empty, Empty],
         [Empty, Empty, V, Empty, Empty],
         [Empty, Empty, V, Empty, Empty],
         [Empty, Empty, Empty, H, H],
         [Empty, Empty, Empty, Empty, Empty]]\<rparr>)"
  unfolding fresh_initial by code_simp

text \<open>
  C2, amended. No move is rejected for its direction. For a horizontal car in row \<open>i\<close> and
  columns \<open>sj\<close> to \<open>ej\<close> of a rectangular board, \<^verbatim>\<open>_move_up\<close> (when there is a row above)
  and \<^verbatim>\<open>_move_down\<close> (when there is a row below) raise nothing, empty row \<open>i\<close> in those
  columns, write the horizontal marker to the row above, respectively below, in those
  columns, and leave every other cell as it was.
\<close>

theorem horizontal_car_moves_vertically:
  assumes "py_get (cars g) (car_num - 1) = Inr c"
    and "orientation c = Horizontal" "start_pos c = (i, sj)" "snd (end_pos c) = ej"
    and "0 \<le> i" "i < int n" "0 \<le> sj" "ej < int w"
    and "length (board g) = n" "\<forall>row \<in> set (board g). length row = w"
  shows "(1 \<le> i \<longrightarrow>
           (\<exists>b'. move_up g car_num = (Inr (), g\<lparr>board := b'\<rparr>)
              \<and> length b' = n \<and> (\<forall>row \<in> set b'. length row = w)
              \<and> (\<forall>r<n. \<forall>k<w. b' ! r ! k =
                   (if sj \<le> int k \<and> int k \<le> ej \<and> int r = i - 1 then H
                    else if sj \<le> int k \<and> int k \<le> ej \<and> int r = i then Empty
                    else board g ! r ! k))))
       \<and> (i + 1 < int n \<longrightarrow>
           (\<exists>b'. move_down g car_num = (Inr (), g\<lparr>board := b'\<rparr>)
              \<and> length b' = n \<and> (\<forall>row \<in> set b'. length row = w)
              \<and> (\<forall>r<n. \<forall>k<w. b' ! r ! k =
                   (if sj \<le> int k \<and> int k \<le> ej \<and> int r = i + 1 then H
                    else if sj \<le> int k \<and> int k \<le> ej \<and> int r = i then Empty
                    else board g ! r ! k))))"
  using move_horizontal_inside [OF assms] by blast

theorem horizontal_car_moves_vertically_witness:
  "py_get (cars (fresh board_demo)) (2 - 1) = Inr (Car (3, 3) (3, 4) Horizontal)
   \<and> orientation (Car (3, 3) (3, 4) Horizontal) = Horizontal
   \<and> start_pos (Car (3, 3) (3, 4) Horizontal) = (3, 3)
   \<and> snd (end_pos (Car (3, 3) (3, 4) Horizontal)) = 4
   \<and> (0::int) \<le> 3 \<and> (3::int) < int 5 \<and> (4::int) < int 5
   \<and> map length (board (fresh board_demo)) = [5, 5, 5, 5, 5]
   \<and> (1::int) \<le> 3 \<and> (3::int) + 1 < int 5
   \<and> fst (move_up (fresh board_demo) 2) = Inr ()
   \<and> board (snd (move_up (fresh board_demo) 2)) ! 2 ! 3 = H
   \<and> board (snd (move_up (fresh board_demo) 2)) ! 3 ! 3 = Empty
   \<and> fst (move_down (fresh board_demo) 2) = Inr ()
   \<and> board (snd (move_down (fresh board_demo) 2)) ! 4 ! 4 = H
   \<and> board (snd (move_down (fresh board_demo) 2)) ! 3 ! 4 = Empty"
proof -
  have h1: "py_get (cars (fresh board_demo)) (2 - 1) = Inr (Car (3, 3) (3, 4) Horizontal)"
    by (simp add: fresh_demo py_get_def py_index_def)
  have h2: "orientation (Car (3, 3) (3, 4) Horizontal) = Horizontal"
    and h3: "start_pos (Car (3, 3) (3, 4) Horizontal) = (3, 3)"
    and h4: "snd (end_pos (Car (3, 3) (3, 4) Horizontal)) = 4"
    by (simp_all add: Car_def)
  have h5: "(0::int) \<le> 3" and h6: "(3::int) < int 5" and h8: "(4::int) < int 5"
    by simp_all
  have h9: "length (board (fresh board_demo)) = 5"
    and h10: "\<forall>row \<in> set (board (fresh board_demo)). length row = 5"
    and h11: "map length (board (fresh board_demo)) = [5, 5, 5, 5, 5]"
    unfolding fresh_demo by (simp_all add: board_demo_def)
  have h12: "(1::int) \<le> 3" and h13: "(3::int) + 1 < int 5" by simp_all
  note both = horizontal_car_moves_vertically [OF h1 h2 h3 h4 h5 h6 h5 h8 h9 h10]
  obtain b' where up: "move_up (fresh board_demo) 2 = (Inr (), (fresh board_demo)\<lparr>board := b'\<rparr>)"
    and cells: "\<forall>r<5. \<forall>k<5. b' ! r ! k =
               (if 3 \<le> int k \<and> int k \<le> 4 \<and> int r = 3 - 1 then H
                else if 3 \<le> int k \<and> int k \<le> 4 \<and> int r = 3 then Empty
                else board (fresh board_demo) ! r ! k)"
    using both h12 by blast
  obtain b'' where down: "move_down (fresh board_demo) 2 = (Inr (), (fresh board_demo)\<lparr>board := b''\<rparr>)"
    and cells': "\<forall>r<5. \<forall>k<5. b'' ! r ! k =
               (if 3 \<le> int k \<and> int k \<le> 4 \<and> int r = 3 + 1 then H
                else if 3 \<le> int k \<and> int k \<le> 4 \<and> int r = 3 then Empty
                else board (fresh board_demo) ! r ! k)"
    using both h13 by blast
  have "b' ! 2 ! 3 = H" "b' ! 3 ! 3 = Empty" using cells by simp_all
  moreover have "b'' ! 4 ! 4 = H" "b'' ! 3 ! 4 = Empty" using cells' by simp_all
  ultimately show ?thesis using h1 h2 h3 h4 h11 up down by simp
qed

text \<open>
  C3, as the claim states it, fails: on the board below a one-cell car lies in column 2
  directly above the vertical car, with no gap. Moving the vertical car up is not
  rejected, and its marker replaces the marker of the other car in cell (0,2).
\<close>

theorem move_up_into_other_car:
  "cars (fresh board_blocked) = [Car (0, 2) (0, 2) Horizontal, Car (1, 2) (2, 2) Vertical] \<and>
   load (board (fresh board_blocked)) 0 2 = Inr H \<and>
   move_up (fresh board_blocked) 2 =
     (Inr (), (fresh board_blocked)\<lparr>board :=
        [[Empty, Empty, V, Empty, Empty],
         [Empty, Empty, V, Empty, Empty],
         [Empty, Empty, Empty, Empty, Empty],
         [Empty, Empty, Empty, Empty, Empty],
         [Empty, Empty, Empty, Empty, Empty]]\<rparr>)"
  unfolding fresh_blocked by code_simp

text \<open>
  C3, amended. The move helpers look at no cell before they write. For a vertical car in
  rows \<open>s\<close> to \<open>e\<close> of column \<open>j\<close> of a rectangular board, \<^verbatim>\<open>_move_up\<close> (when there is a
  row above) raises nothing, writes the marker to rows \<open>s - 1\<close> to \<open>e - 1\<close> whatever cell
  \<open>(s - 1, j)\<close> held, empties row \<open>e\<close> and leaves every other cell as it was;
  \<^verbatim>\<open>_move_down\<close> (when there is a row below) does the same towards row \<open>e + 1\<close>.
\<close>

theorem vertical_move_writes_unchecked:
  assumes "py_get (cars g) (car_num - 1) = Inr c"
    and "orientation c = Vertical" "start_pos c = (s, j)" "fst (end_pos c) = e"
    and "0 \<le> s" "s \<le> e" "e < int n" "0 \<le> j" "j < int w"
    and "length (board g) = n" "\<forall>row \<in> set (board g). length row = w"
  shows "(1 \<le> s \<longrightarrow>
           (\<exists>b'. move_up g car_num = (Inr (), g\<lparr>board := b'\<rparr>)
              \<and> length b' = n \<and> (\<forall>row \<in> set b'. length row = w)
              \<and> (\<forall>r<n. \<forall>k<w. b' ! r ! k =
                   (if int k = j \<and> s - 1 \<le> int r \<and> int r < e then V
                    else if int k = j \<and> int r = e then Empty
                    else board g ! r ! k))))
       \<and> (e + 1 < int n \<longrightarrow>
           (\<exists>b'. move_down g car_num = (Inr (), g\<lparr>board := b'\<rparr>)
              \<and> length b' = n \<and> (\<forall>row \<in> set b'. length row = w)
              \<and> (\<forall>r<n. \<forall>k<w. b' ! r ! k =
                   (if int k = j \<and> s < int r \<and> int r \<le> e + 1 then V
                    else if int k = j \<and> int r = s then Empty
                    else board g ! r ! k))))"
  using move_up_vertical_inside [OF assms(1-4) _ assms(6-11)]
        move_down_vertical_inside [OF assms(1-6) _ assms(8-11)]
  by blast

theorem vertical_move_writes_unchecked_witness:
  "py_get (cars (fresh board_blocked)) (2 - 1) = Inr (Car (1, 2) (2, 2) Vertical)
   \<and> orientation (Car (1, 2) (2, 2) Vertical) = Vertical
   \<and> start_pos (Car (1, 2) (2, 2) Vertical) = (1, 2)
   \<and> fst (end_pos (Car (1, 2) (2, 2) Vertical)) = 2
   \<and> (0::int) \<le> 1 \<and> (1::int) \<le> 2 \<and> (2::int) < int 5 \<and> (0::int) \<le> 2
   \<and> map length (board (fresh board_blocked)) = [5, 5, 5, 5, 5]
   \<and> (1::int) \<le> 1 \<and> (2::int) + 1 < int 5
   \<and> board (fresh board_blocked) ! 0 ! 2 = H
   \<and> fst (move_up (fresh board_blocked) 2) = Inr ()
   \<and> board (snd (move_up (fresh board_blocked) 2)) ! 0 ! 2 = V
   \<and> board (snd (move_up (fresh board_blocked) 2)) ! 2 ! 2 = Empty
   \<and> fst (move_down (fresh board_blocked) 2) = Inr ()
   \<and> board (snd (move_down (fresh board_blocked) 2)) ! 3 ! 2 = V
   \<and> board (snd (move_down (fresh board_blocked) 2)) ! 1 ! 2 = Empty"
proof -
  have h1: "py_get (cars (fresh board_blocked)) (2 - 1) = Inr (Car (1, 2) (2, 2) Vertical)"
    by (simp add: fresh_blocked py_get_def py_index_def)
  have h2: "orientation (Car (1, 2) (2, 2) Vertical) = Vertical"
    and h3: "start_pos (Car (1, 2) (2, 2) Vertical) = (1, 2)"
    and h4: "fst (end_pos (Car (1, 2) (2, 2) Vertical)) = 2"
    by (simp_all add: Car_def)
  have h5: "(0::int) \<le> 1" and h6: "(1::int) \<le> 2" and h7: "(2::int) < int 5"
    and h8: "(0::int) \<le> 2" by simp_all
  have h10: "length (board (fresh board_blocked)) = 5"
    and h11: "\<forall>row \<in> set (board (fresh board_blocked)). length row = 5"
    and h14: "map length (board (fresh board_blocked)) = [5, 5, 5, 5, 5]"
    and h15: "board (fresh board_blocked) ! 0 ! 2 = H"
    unfolding fresh_blocked by (simp_all add: board_blocked_def)
  have h12: "(1::int) \<le> 1" and h13: "(2::int) + 1 < int 5" by simp_all
  note both = vertical_move_writes_unchecked [OF h1 h2 h3 h4 h5 h6 h7 h8 h7 h10 h11]
  obtain b' where up: "move_up (fresh board_blocked) 2 = (Inr (), (fresh board_blocked)\<lparr>board := b'\<rparr>)"
    and cells: "\<forall>r<5. \<forall>k<5. b' ! r ! k =
               (if int k = 2 \<and> 1 - 1 \<le> int r \<and> int r < 2 then V
                else if int k = 2 \<and> int r = 2 then Empty
                else board (fresh board_blocked) ! r ! k)"
    using both h12 by blast
  obtain b'' where down: "move_down (fresh board_blocked) 2 = (Inr (), (fresh board_blocked)\<lparr>board := b''\<rparr>)"
    and cells': "\<forall>r<5. \<forall>k<5. b'' ! r ! k =
               (if int k = 2 \<and> 1 < int r \<and> int r \<le> 2 + 1 then V
                else if int k = 2 \<and> int r = 1 then Empty
                else board (fresh board_blocked) ! r ! k)"
    using both h13 by blast
  have "b' ! 0 ! 2 = V" "b' ! 2 ! 2 = Empty" using cells by simp_all
  moreover have "b'' ! 3 ! 2 = V" "b'' ! 1 ! 2 = Empty" using cells' by simp_all
  ultimately show ?thesis using h1 h2 h3 h4 h14 h15 up down by simp
qed

text \<open>
  C5, as the claim states it, fails: the cells (1,1) and (1,2) of the board below are
  neighbours and carry the same marker, yet the scan emits one car for each of them. The
  flood fill never looks left or right of a vertical marker.
\<close>

theorem neighbours_in_two_cars:
  "load board_side 1 1 = Inr V \<and> load board_side 1 2 = Inr V \<and>
   find_cars \<lparr>board_dimension = 5, board = board_side, cars = []\<rparr> =
     (Inr (),
      \<lparr>board_dimension = 5, board = board_side,
       cars = [\<lparr>start_pos = (1, 1), end_pos = (1, 1), orientation = Vertical, car_length = 1\<rparr>,
               \<lparr>start_pos = (1, 2), end_pos = (1, 2), orientation = Vertical, car_length = 1\<rparr>]\<rparr>)"
  by (simp add: find_cars_def scan_side Car_def calculate_length_def)
     (simp add: board_side_def load_def py_index_def)

text \<open>
  C5, amended. On every square board whose side is \<^verbatim>\<open>board_dimension\<close> the scan raises
  nothing, and its flood fill, which from a cell looks only at the two neighbours along
  the axis of the marker, collects straight runs: the car collection is the list of the
  horizontal runs of "h" and vertical runs of "v", each from its first to its last cell, in
  row-major order of the first cells, and each of these cars is a maximal straight run of
  cells with one marker along the axis of that marker.
\<close>

theorem find_cars_straight_runs:
  assumes "length (board g) = nat (board_dimension g)"
    and "\<forall>row \<in> set (board g). length row = nat (board_dimension g)"
  shows "find_cars g = (Inr (), g\<lparr>cars := runs (board_dimension g) (board g)\<rparr>)
       \<and> (\<forall>c \<in> set (runs (board_dimension g) (board g)).
             maximal_run (board_dimension g) (board g) c)"
proof -
  have "rect (nat (board_dimension g)) (nat (board_dimension g)) (board g)"
    using assms by (rule rect_board)
  then show ?thesis by (simp add: find_cars_def scan_runs runs_maximal)
qed

theorem find_cars_straight_runs_witness:
  "length (board \<lparr>board_dimension = 5, board = board_side, cars = []\<rparr>) = nat 5
   \<and> map length (board \<lparr>board_dimension = 5, board = board_side, cars = []\<rparr>) = [5, 5, 5, 5, 5]
   \<and> find_cars \<lparr>board_dimension = 5, board = board_side, cars = []\<rparr> =
       (Inr (), \<lparr>board_dimension = 5, board = board_side,
                 cars = [Car (1, 1) (1, 1) Vertical, Car (1, 2) (1, 2) Vertical]\<rparr>)"
proof -
  let ?g = "\<lparr>board_dimension = 5, board = board_side, cars = []\<rparr>"
  have h1: "length (board ?g) = nat (board_dimension ?g)"
    and h2: "\<forall>row \<in> set (board ?g). length row = nat (board_dimension ?g)"
    and h3: "map length (board ?g) = [5, 5, 5, 5, 5]"
    by (simp_all add: board_side_def)
  show ?thesis
    using h1 h3 find_cars_straight_runs [OF h1 h2] by (simp add: runs_side)
qed

end
